theory Spec2Isabelle
  imports Complex_Main "HOL-Library.Multiset"
begin

text \<open>
  The front end of the Smart Financial Coach: the API client \<^verbatim>\<open>api/client.ts\<close> with its
  \<^verbatim>\<open>handleResponse\<close> and the flows \<^verbatim>\<open>uploadAndAnalyze\<close> and \<^verbatim>\<open>loadSampleAndAnalyze\<close>, the
  types of \<^verbatim>\<open>types.ts\<close> that the chart reads, and the chart data of
  \<^verbatim>\<open>components/SpendingChart.tsx\<close>. The analysis pipeline itself runs on the server.
\<close>

section \<open>JavaScript values read by the API client\<close>

text \<open>
  The client (\<^verbatim>\<open>api/client.ts\<close>) reads HTTP responses whose bodies are JSON texts.
  A JSON value is what \<^verbatim>\<open>JSON.parse\<close> returns; the members of an object are kept in
  the order of the text. \<^verbatim>\<open>undefined\<close> is not a JSON value: a JavaScript value that may
  be \<^verbatim>\<open>undefined\<close> is a \<open>json option\<close>, with \<open>None\<close> for \<^verbatim>\<open>undefined\<close>.
\<close>

datatype json =
    JNull
  | JBool bool
  | JNumber rat
  | JString string
  | JArray "json list"
  | JObject "(string \<times> json) list"

type_synonym js_value = "json option"

text \<open>
  What the client can throw: the \<^verbatim>\<open>SyntaxError\<close> of a JSON parse, the \<^verbatim>\<open>TypeError\<close> of a
  property read on \<^verbatim>\<open>null\<close> (and of a \<^verbatim>\<open>fetch\<close> that fails on the network), and the
  client's own \<^verbatim>\<open>ApiError(message, status, details)\<close>.
\<close>

datatype exception =
    SyntaxError
  | TypeError
  | ApiError string nat js_value

text \<open>JavaScript truthiness of a value: \<^verbatim>\<open>null\<close>, \<^verbatim>\<open>false\<close>, \<^verbatim>\<open>0\<close>, \<^verbatim>\<open>""\<close> and
  \<^verbatim>\<open>undefined\<close> are falsy, everything else (every array and object too) is truthy.\<close>

fun truthy :: "json \<Rightarrow> bool" where
  "truthy JNull = False"
| "truthy (JBool b) = b"
| "truthy (JNumber n) = (n \<noteq> 0)"
| "truthy (JString s) = (s \<noteq> [])"
| "truthy (JArray vs) = True"
| "truthy (JObject kvs) = True"

text \<open>\<^verbatim>\<open>a || b\<close>: the left operand when it is truthy, else the right one.\<close>

definition or_else :: "js_value \<Rightarrow> js_value \<Rightarrow> js_value" where
  "or_else a b = (case a of None \<Rightarrow> b | Some v \<Rightarrow> if truthy v then Some v else b)"

text \<open>
  The member of a parsed object under a key: when the text repeats a key, \<^verbatim>\<open>JSON.parse\<close>
  keeps the last member.
\<close>

definition object_member :: "(string \<times> json) list \<Rightarrow> string \<Rightarrow> js_value" where
  "object_member kvs k = map_of (rev kvs) k"

text \<open>
  The property read \<^verbatim>\<open>v.k\<close> for the keys the client reads (\<^verbatim>\<open>detail\<close>, \<^verbatim>\<open>message\<close>,
  \<^verbatim>\<open>session_id\<close>): on \<^verbatim>\<open>null\<close> it throws a TypeError, on an object it is the member or
  \<^verbatim>\<open>undefined\<close>, and booleans, numbers, strings and arrays have no property of these
  names.
\<close>

fun get_prop :: "json \<Rightarrow> string \<Rightarrow> exception + js_value" where
  "get_prop JNull k = Inl TypeError"
| "get_prop (JObject kvs) k = Inr (object_member kvs k)"
| "get_prop v k = Inr None"

text \<open>The decimal digits of a number, as a template literal prints \<^verbatim>\<open>${response.status}\<close>.\<close>

fun string_of_nat :: "nat \<Rightarrow> string" where
  "string_of_nat n =
     (if n < 10 then [''0123456789'' ! n]
      else string_of_nat (n div 10) @ [''0123456789'' ! (n mod 10)])"

section \<open>HTTP responses and \<^verbatim>\<open>handleResponse\<close>\<close>

text \<open>
  A response as \<^verbatim>\<open>handleResponse\<close> reads it: \<^verbatim>\<open>response.ok\<close>, \<^verbatim>\<open>response.status\<close> and the
  body. The body of a response is its text together with what \<^verbatim>\<open>JSON.parse\<close> makes of that
  text: \<open>Text s\<close> is a text \<open>s\<close> that is not JSON (the parse throws a SyntaxError),
  \<open>Json s v\<close> a text \<open>s\<close> that parses to the value \<open>v\<close>.
\<close>

datatype body = Text string | Json string json

fun text_of :: "body \<Rightarrow> string" where
  "text_of (Text s) = s"
| "text_of (Json s v) = s"

fun JSON_parse :: "body \<Rightarrow> json option" where
  "JSON_parse (Text s) = None"
| "JSON_parse (Json s v) = Some v"

record response =
  ok :: bool
  status :: nat
  body :: body

text \<open>
  \<^verbatim>\<open>
  async function handleResponse<T>(response: Response): Promise<T> {
    if (!response.ok) {
      const errorBody = await response.text();
      let details: string | undefined;
      try {
        const parsed = JSON.parse(errorBody);
        details = parsed.detail || parsed.message;
      } catch {
        details = errorBody;
      }
      throw new ApiError(`API Error: ${response.status}`, response.status, details);
    }
    return response.json();
  }
  \<close>
  The \<^verbatim>\<open>try\<close> block throws when the parse throws and when \<^verbatim>\<open>parsed\<close> is \<^verbatim>\<open>null\<close>
  (the read of \<^verbatim>\<open>parsed.detail\<close>); both land in the \<^verbatim>\<open>catch\<close>. The two property reads
  are reads of parsed data, without effects, so it does not matter that JavaScript skips
  the second one when the first is truthy. \<^verbatim>\<open>response.json()\<close> rejects with a SyntaxError
  when the body is not JSON. The body is taken as delivered in full; a request that fails
  on the network is modelled at \<^verbatim>\<open>fetch\<close>, in the client flow below.
\<close>

definition error_details :: "body \<Rightarrow> js_value" where
  "error_details b =
     (let errorBody = text_of b in
      case JSON_parse b of
        None \<Rightarrow> Some (JString errorBody)
      | Some parsed \<Rightarrow>
          (case get_prop parsed ''detail'' of
             Inl e \<Rightarrow> Some (JString errorBody)
           | Inr detail \<Rightarrow>
               (case get_prop parsed ''message'' of
                  Inl e \<Rightarrow> Some (JString errorBody)
                | Inr message \<Rightarrow> or_else detail message)))"

definition response_json :: "response \<Rightarrow> exception + json" where
  "response_json response =
     (case JSON_parse (body response) of
        None \<Rightarrow> Inl SyntaxError
      | Some v \<Rightarrow> Inr v)"

definition handleResponse :: "response \<Rightarrow> exception + json" where
  "handleResponse response =
     (if \<not> ok response then
        Inl (ApiError (''API Error: '' @ string_of_nat (status response))
               (status response)
               (error_details (body response)))
      else response_json response)"

section \<open>The spending chart\<close>

text \<open>
  \<^verbatim>\<open>CategorySpending\<close> and \<^verbatim>\<open>SpendingSummary\<close> of \<^verbatim>\<open>types.ts\<close>. Amounts are finite
  numbers, as the JSON of a dashboard response carries them, so they are rationals, and
  the comparisons, the absolute value and the sign of a difference are exact on them.
  \<open>by_category\<close>, a \<^verbatim>\<open>Record<string, CategorySpending>\<close>, is held as the list
  \<^verbatim>\<open>Object.entries\<close> returns, in the object's property order. The field \<^verbatim>\<open>count\<close> is
  \<open>count_n\<close> here.
\<close>

record CategorySpending =
  amount :: rat
  count_n :: nat
  icon :: "string option"
  color :: "string option"
  is_essential :: bool

record SpendingSummary =
  total_income :: rat
  total_spending :: rat
  net :: rat
  by_category :: "(string \<times> CategorySpending) list"

text \<open>An element of \<^verbatim>\<open>chartData\<close>: \<^verbatim>\<open>{ name, value, icon }\<close>.\<close>

record ChartDatum =
  name :: string
  "value" :: rat
  icon :: "string option"

text \<open>
  \<^verbatim>\<open>Array.prototype.sort(compareFn)\<close>: the sort is stable, and \<^verbatim>\<open>compareFn(a, b) > 0\<close>
  puts \<open>a\<close> after \<open>b\<close>. Inserting each element, from the last to the first, before
  the first element it does not have to follow gives that order.
\<close>

fun insert_sorted :: "('a \<Rightarrow> 'a \<Rightarrow> rat) \<Rightarrow> 'a \<Rightarrow> 'a list \<Rightarrow> 'a list" where
  "insert_sorted compareFn x [] = [x]"
| "insert_sorted compareFn x (y # ys) =
     (if compareFn x y > 0 then y # insert_sorted compareFn x ys else x # y # ys)"

definition Array_sort :: "('a \<Rightarrow> 'a \<Rightarrow> rat) \<Rightarrow> 'a list \<Rightarrow> 'a list" where
  "Array_sort compareFn xs = foldr (insert_sorted compareFn) xs []"

text \<open>
  \<^verbatim>\<open>
  const chartData = Object.entries(summary.by_category)
    .filter(([_, data]) => data.amount < 0) // Only expenses
    .map(([name, data]) => ({
      name,
      value: Math.abs(data.amount),
      icon: data.icon,
    }))
    .sort((a, b) => b.value - a.value); // Sort by value descending
  \<close>
\<close>

definition chartData :: "SpendingSummary \<Rightarrow> ChartDatum list" where
  "chartData summary =
     Array_sort (\<lambda>a b. value b - value a)
       (map (\<lambda>(name, data).
               \<lparr>name = name, value = \<bar>amount data\<bar>, icon = CategorySpending.icon data\<rparr>)
          (filter (\<lambda>(_, data). amount data < 0) (by_category summary)))"

text \<open>
  The legend: the rows are \<^verbatim>\<open>chartData.slice(0, 5)\<close>, and the note
  \<^verbatim>\<open>+{chartData.length - 5} more categories\<close> is rendered when
  \<^verbatim>\<open>chartData.length > 5\<close> (\<open>None\<close>: no note).
\<close>

definition legend :: "SpendingSummary \<Rightarrow> ChartDatum list" where
  "legend summary = take 5 (chartData summary)"

definition more_categories :: "SpendingSummary \<Rightarrow> string option" where
  "more_categories summary =
     (if length (chartData summary) > 5
      then Some (''+'' @ string_of_nat (length (chartData summary) - 5) @ '' more categories'')
      else None)"

section \<open>The client flow: upload, analyze, dashboard\<close>

text \<open>
  The requests of the flow, each a \<^verbatim>\<open>fetch\<close> followed by \<^verbatim>\<open>handleResponse\<close>:
  \<^verbatim>\<open>
  uploadCSV(file):           POST ${API_BASE}/upload   (the file as form data)
  useSampleData():           POST ${API_BASE}/sample
  analyzeSession(sessionId): POST ${API_BASE}/analyze/${sessionId}
  getDashboard(sessionId):   GET  ${API_BASE}/dashboard/${sessionId}
  \<close>
  The session id is whatever value \<^verbatim>\<open>uploadResult.session_id\<close> holds at run time.
\<close>

datatype request =
    POST_upload string
  | POST_sample
  | POST_analyze js_value
  | GET_dashboard js_value

text \<open>
  What happens during a flow, in order: a call of the \<^verbatim>\<open>onProgress\<close> callback, a request
  leaving the client, and the promise of a request settling (\<open>Inr\<close>: fulfilled with the
  parsed body, \<open>Inl\<close>: rejected). An \<^verbatim>\<open>await\<close> resumes the function only once its promise
  has settled, so the events of a flow come one after the other.
\<close>

datatype event =
    Progress string
  | Sent request
  | Settled request "exception + json"

text \<open>
  The network and the server behind it: the response to a request, which may depend on
  everything that happened before, or \<open>None\<close> when \<^verbatim>\<open>fetch\<close> rejects (a TypeError):
  the parameter \<open>fetch\<close> of the functions below.
\<close>

type_synonym network = "event list \<Rightarrow> request \<Rightarrow> response option"

text \<open>
  \<^verbatim>\<open>
  const response = await fetch(...);
  return handleResponse<T>(response);
  \<close>
\<close>

definition fetch_json ::
    "network \<Rightarrow> request \<Rightarrow> event list \<Rightarrow> (exception + json) \<times> event list" where
  "fetch_json fetch req tr =
     (let tr1 = tr @ [Sent req];
          result = (case fetch tr1 req of
                      None \<Rightarrow> Inl TypeError
                    | Some response \<Rightarrow> handleResponse response)
      in (result, tr1 @ [Settled req result]))"

definition uploadCSV ::
    "network \<Rightarrow> string \<Rightarrow> event list \<Rightarrow> (exception + json) \<times> event list" where
  "uploadCSV fetch file = fetch_json fetch (POST_upload file)"

definition useSampleData :: "network \<Rightarrow> event list \<Rightarrow> (exception + json) \<times> event list" where
  "useSampleData fetch = fetch_json fetch POST_sample"

definition analyzeSession ::
    "network \<Rightarrow> js_value \<Rightarrow> event list \<Rightarrow> (exception + json) \<times> event list" where
  "analyzeSession fetch sessionId = fetch_json fetch (POST_analyze sessionId)"

definition getDashboard ::
    "network \<Rightarrow> js_value \<Rightarrow> event list \<Rightarrow> (exception + json) \<times> event list" where
  "getDashboard fetch sessionId = fetch_json fetch (GET_dashboard sessionId)"

text \<open>\<^verbatim>\<open>onProgress?.(step)\<close>: the callback is optional; \<open>onProgress\<close> says whether one was
  passed.\<close>

definition notify :: "bool \<Rightarrow> string \<Rightarrow> event list \<Rightarrow> event list" where
  "notify onProgress step tr = (if onProgress then tr @ [Progress step] else tr)"

text \<open>
  \<^verbatim>\<open>
  export async function uploadAndAnalyze(file, onProgress) {
    // Step 1: Upload
    onProgress?.('Uploading file...');
    const uploadResult = await uploadCSV(file);
    // Step 2: Analyze
    onProgress?.('Analyzing transactions...');
    await analyzeSession(uploadResult.session_id);
    // Step 3: Get dashboard
    onProgress?.('Loading dashboard...');
    return getDashboard(uploadResult.session_id);
  }
  \<close>
  A rejected promise ends the flow at its \<^verbatim>\<open>await\<close>; so does the TypeError of reading
  \<^verbatim>\<open>session_id\<close> of a \<^verbatim>\<open>null\<close> upload result.
\<close>

definition uploadAndAnalyze ::
    "network \<Rightarrow> string \<Rightarrow> bool \<Rightarrow> event list \<Rightarrow> (exception + json) \<times> event list" where
  "uploadAndAnalyze fetch file onProgress tr0 =
     (let tr1 = notify onProgress ''Uploading file...'' tr0 in
      case uploadCSV fetch file tr1 of
        (Inl e, tr2) \<Rightarrow> (Inl e, tr2)
      | (Inr uploadResult, tr2) \<Rightarrow>
          (let tr3 = notify onProgress ''Analyzing transactions...'' tr2 in
           case get_prop uploadResult ''session_id'' of
             Inl e \<Rightarrow> (Inl e, tr3)
           | Inr session_id \<Rightarrow>
               (case analyzeSession fetch session_id tr3 of
                  (Inl e, tr4) \<Rightarrow> (Inl e, tr4)
                | (Inr analyzed, tr4) \<Rightarrow>
                    (let tr5 = notify onProgress ''Loading dashboard...'' tr4 in
                     case get_prop uploadResult ''session_id'' of
                       Inl e \<Rightarrow> (Inl e, tr5)
                     | Inr session_id' \<Rightarrow> getDashboard fetch session_id' tr5))))"

text \<open>\<^verbatim>\<open>loadSampleAndAnalyze(onProgress)\<close>: the same flow, started by \<^verbatim>\<open>useSampleData()\<close>
  after \<^verbatim>\<open>onProgress?.('Loading sample data...')\<close>.\<close>

definition loadSampleAndAnalyze ::
    "network \<Rightarrow> bool \<Rightarrow> event list \<Rightarrow> (exception + json) \<times> event list" where
  "loadSampleAndAnalyze fetch onProgress tr0 =
     (let tr1 = notify onProgress ''Loading sample data...'' tr0 in
      case useSampleData fetch tr1 of
        (Inl e, tr2) \<Rightarrow> (Inl e, tr2)
      | (Inr uploadResult, tr2) \<Rightarrow>
          (let tr3 = notify onProgress ''Analyzing transactions...'' tr2 in
           case get_prop uploadResult ''session_id'' of
             Inl e \<Rightarrow> (Inl e, tr3)
           | Inr session_id \<Rightarrow>
               (case analyzeSession fetch session_id tr3 of
                  (Inl e, tr4) \<Rightarrow> (Inl e, tr4)
                | (Inr analyzed, tr4) \<Rightarrow>
                    (let tr5 = notify onProgress ''Loading dashboard...'' tr4 in
                     case get_prop uploadResult ''session_id'' of
                       Inl e \<Rightarrow> (Inl e, tr5)
                     | Inr session_id' \<Rightarrow> getDashboard fetch session_id' tr5))))"

subsection \<open>Order of events\<close>

text \<open>Every event of the kind \<open>Q\<close> has an event of the kind \<open>P\<close> somewhere before it.\<close>

definition preceded :: "('a \<Rightarrow> bool) \<Rightarrow> ('a \<Rightarrow> bool) \<Rightarrow> 'a list \<Rightarrow> bool" where
  "preceded P Q tr = (\<forall>i<length tr. Q (tr ! i) \<longrightarrow> (\<exists>j<i. P (tr ! j)))"

text \<open>Every request is awaited: the next event after it is its own promise settling.\<close>

definition awaited :: "event list \<Rightarrow> bool" where
  "awaited tr =
     (\<forall>i<length tr. \<forall>req. tr ! i = Sent req \<longrightarrow>
        Suc i < length tr \<and> (\<exists>result. tr ! Suc i = Settled req result))"

section \<open>The analysis run behind \<^verbatim>\<open>POST /analyze\<close>\<close>

text \<open>
  Modelled from the spec: the stages of the analysis pipeline. The server code that runs
  them is not among the sources; the spec (System overview) lists the stages of a run in
  their fixed order, with the GoalForecaster invoked on demand outside the run.
\<close>

datatype stage =
    Categorizer
  | AnomalyDetector
  | RecurringChargeDetector
  | DeltaCalculator
  | InsightGenerator

definition all_stages :: "stage list" where
  "all_stages =
     [Categorizer, AnomalyDetector, RecurringChargeDetector, DeltaCalculator, InsightGenerator]"

text \<open>
  Modelled from the spec: the stage before a stage, and all the stages before it, in the
  order 1 to 5 of the spec ("data flows strictly forward").
\<close>

fun predecessor :: "stage \<Rightarrow> stage option" where
  "predecessor Categorizer = None"
| "predecessor AnomalyDetector = Some Categorizer"
| "predecessor RecurringChargeDetector = Some AnomalyDetector"
| "predecessor DeltaCalculator = Some RecurringChargeDetector"
| "predecessor InsightGenerator = Some DeltaCalculator"

fun before :: "stage \<Rightarrow> stage list" where
  "before Categorizer = []"
| "before AnomalyDetector = [Categorizer]"
| "before RecurringChargeDetector = [Categorizer, AnomalyDetector]"
| "before DeltaCalculator = [Categorizer, AnomalyDetector, RecurringChargeDetector]"
| "before InsightGenerator =
     [Categorizer, AnomalyDetector, RecurringChargeDetector, DeltaCalculator]"

text \<open>
  Modelled from the spec: the output sets a stage consumes, by the component contracts:
  the three detectors are "given categorized Transactions", the InsightGenerator is
  "given the outputs of 4.1-4.4"; the Categorizer consumes the transactions of the run.
  "No stage re-reads a later stage's output."
\<close>

fun reads :: "stage \<Rightarrow> stage list" where
  "reads Categorizer = []"
| "reads AnomalyDetector = [Categorizer]"
| "reads RecurringChargeDetector = [Categorizer]"
| "reads DeltaCalculator = [Categorizer]"
| "reads InsightGenerator =
     [Categorizer, AnomalyDetector, RecurringChargeDetector, DeltaCalculator]"

text \<open>
  Modelled from the spec: the fatal errors of a run (Error handling design, d): a missing
  taxonomy, an empty transaction set; and a stage that ends in a fatal error while it
  works.
\<close>

datatype failure = TaxonomyMissing | EmptyTransactionSet | StageFailed stage

text \<open>
  Modelled from the spec: what a stage does on its inputs is a parameter. It either
  completes with its output set, or produces a part of one and then fails fatally. The
  inputs are the taxonomy and the output sets the stage consumes, in the order of
  \<open>reads\<close> (for the Categorizer: the transactions). \<open>'c\<close> stands for categories, \<open>'x\<close> for
  the entities of the run (transactions, anomalies, recurring charges, deltas, insights).
\<close>

datatype 'x outcome = Completes "'x list" | Fails "'x list"

fun produced :: "'x outcome \<Rightarrow> 'x list" where
  "produced (Completes xs) = xs"
| "produced (Fails xs) = xs"

type_synonym ('c, 'x) stages = "stage \<Rightarrow> 'c list \<Rightarrow> 'x list list \<Rightarrow> 'x outcome"

text \<open>
  Modelled from the spec: the output set of a stage during a run: not started, partial
  while the stage works (what it has produced so far), finalized when the stage has
  completed.
\<close>

datatype 'x output_set = NotStarted | Partial "'x list" | Finalized "'x list"

fun is_final :: "'x output_set \<Rightarrow> bool" where
  "is_final (Finalized xs) = True"
| "is_final out = False"

fun final_output :: "'x output_set \<Rightarrow> 'x list option" where
  "final_output (Finalized xs) = Some xs"
| "final_output out = None"

datatype stage_event = Started stage | Finished stage | Aborted failure

text \<open>
  Modelled from the spec: the state of one run: what it was given (the taxonomy, \<open>None\<close>
  when it is missing, and the transactions), the output set of every stage, the fatal
  error it was aborted with, and the log of its stages.
\<close>

record ('c, 'x) run =
  taxonomy :: "'c list option"
  transactions :: "'x list"
  outputs :: "stage \<Rightarrow> 'x output_set"
  aborted :: "failure option"
  stage_log :: "stage_event list"

definition new_run :: "'c list option \<Rightarrow> 'x list \<Rightarrow> ('c, 'x) run" where
  "new_run cats txs =
     \<lparr>taxonomy = cats, transactions = txs, outputs = (\<lambda>st. NotStarted), aborted = None,
      stage_log = []\<rparr>"

text \<open>Modelled from the spec: the inputs of a stage, there once every output set it
  consumes is finalized.\<close>

definition inputs_of :: "stage \<Rightarrow> ('c, 'x) run \<Rightarrow> 'x list list option" where
  "inputs_of st r =
     (if st = Categorizer then Some [transactions r]
      else those (map (\<lambda>s. final_output (outputs r s)) (reads st)))"

text \<open>
  Modelled from the spec: "each stage blocks on the previous stage's full completion; no
  stage may begin before its predecessor's output set is finalized". A stage may begin
  when it has not begun in this run and the output set of the stage before it is
  finalized.
\<close>

definition may_begin :: "stage \<Rightarrow> ('c, 'x) run \<Rightarrow> bool" where
  "may_begin st r =
     (outputs r st = NotStarted
      \<and> (case predecessor st of None \<Rightarrow> True | Some p \<Rightarrow> is_final (outputs r p)))"

text \<open>Modelled from the spec: a fatal error aborts the run and is reported.\<close>

definition abort :: "failure \<Rightarrow> ('c, 'x) run \<Rightarrow> ('c, 'x) run" where
  "abort f r = r\<lparr>aborted := Some f, stage_log := stage_log r @ [Aborted f]\<rparr>"

text \<open>
  Modelled from the spec: the steps of a run. A run without a taxonomy or without
  transactions aborts, and no stage of it begins. Otherwise a stage that may begin starts
  with an empty output set; a stage at work produces the next element of its output set;
  a stage that has produced its whole output set finishes, which finalizes the set; and a
  stage that has produced all it can before its fatal error aborts the run. An aborted run
  takes no further step. A run may stop after any step.
\<close>

inductive step :: "('c, 'x) stages \<Rightarrow> ('c, 'x) run \<Rightarrow> ('c, 'x) run \<Rightarrow> bool"
  for impl :: "('c, 'x) stages" where
  abort_taxonomy:
    "aborted r = None \<Longrightarrow> taxonomy r = None \<Longrightarrow> step impl r (abort TaxonomyMissing r)"
| abort_empty:
    "aborted r = None \<Longrightarrow> transactions r = [] \<Longrightarrow> step impl r (abort EmptyTransactionSet r)"
| start:
    "aborted r = None \<Longrightarrow> taxonomy r \<noteq> None \<Longrightarrow> transactions r \<noteq> [] \<Longrightarrow> may_begin st r \<Longrightarrow>
     step impl r
       (r\<lparr>outputs := (outputs r)(st := Partial []), stage_log := stage_log r @ [Started st]\<rparr>)"
| emit:
    "aborted r = None \<Longrightarrow> outputs r st = Partial xs \<Longrightarrow> taxonomy r = Some cats \<Longrightarrow>
     inputs_of st r = Some ins \<Longrightarrow> length xs < length (produced (impl st cats ins)) \<Longrightarrow>
     step impl r
       (r\<lparr>outputs :=
            (outputs r)(st := Partial (take (Suc (length xs)) (produced (impl st cats ins))))\<rparr>)"
| finish:
    "aborted r = None \<Longrightarrow> outputs r st = Partial xs \<Longrightarrow> taxonomy r = Some cats \<Longrightarrow>
     inputs_of st r = Some ins \<Longrightarrow> impl st cats ins = Completes xs \<Longrightarrow>
     step impl r
       (r\<lparr>outputs := (outputs r)(st := Finalized xs), stage_log := stage_log r @ [Finished st]\<rparr>)"
| fail:
    "aborted r = None \<Longrightarrow> outputs r st = Partial xs \<Longrightarrow> taxonomy r = Some cats \<Longrightarrow>
     inputs_of st r = Some ins \<Longrightarrow> impl st cats ins = Fails xs \<Longrightarrow>
     step impl r (abort (StageFailed st) r)"

text \<open>Modelled from the spec: the states a run on a taxonomy and transactions can be in.\<close>

definition reachable ::
    "('c, 'x) stages \<Rightarrow> 'c list option \<Rightarrow> 'x list \<Rightarrow> ('c, 'x) run \<Rightarrow> bool" where
  "reachable impl cats txs r = rtranclp (step impl) (new_run cats txs) r"

text \<open>
  Modelled from the spec: what a run leaves behind. "No partial/garbage output is
  persisted": the output sets are persisted when the run was not aborted and every stage
  has finalized its set, and nothing is persisted otherwise.
\<close>

definition persisted :: "('c, 'x) run \<Rightarrow> stage \<Rightarrow> 'x list option" where
  "persisted r st =
     (if aborted r = None \<and> list_all (\<lambda>s. is_final (outputs r s)) all_stages
      then final_output (outputs r st) else None)"

text \<open>
  Modelled from the spec: one stage of the run as the server executes it, from its start
  to its finish or to its fatal error; and the whole run, stages 1 to 5 in their order,
  after the check for the two fatal errors of the input.
\<close>

definition run_stage :: "('c, 'x) stages \<Rightarrow> stage \<Rightarrow> ('c, 'x) run \<Rightarrow> ('c, 'x) run" where
  "run_stage impl st r =
     (if aborted r = None \<and> may_begin st r then
        (case (taxonomy r, inputs_of st r) of
           (Some cats, Some ins) \<Rightarrow>
             (let r1 = r\<lparr>stage_log := stage_log r @ [Started st]\<rparr> in
              case impl st cats ins of
                Completes xs \<Rightarrow>
                  r1\<lparr>outputs := (outputs r)(st := Finalized xs),
                     stage_log := stage_log r1 @ [Finished st]\<rparr>
              | Fails xs \<Rightarrow>
                  abort (StageFailed st) (r1\<lparr>outputs := (outputs r)(st := Partial xs)\<rparr>))
         | _ \<Rightarrow> r)
      else r)"

definition analysis_run :: "('c, 'x) stages \<Rightarrow> 'c list option \<Rightarrow> 'x list \<Rightarrow> ('c, 'x) run" where
  "analysis_run impl cats txs =
     (if cats = None then abort TaxonomyMissing (new_run cats txs)
      else if txs = [] then abort EmptyTransactionSet (new_run cats txs)
      else fold (run_stage impl) all_stages (new_run cats txs))"

text \<open>
  Modelled from the spec: the output set of each stage when every stage works on the
  complete output of the stages it consumes.
\<close>

definition expected :: "('c, 'x) stages \<Rightarrow> 'c list \<Rightarrow> 'x list \<Rightarrow> stage \<Rightarrow> 'x outcome" where
  "expected impl cats txs st =
     (let categorized = produced (impl Categorizer cats [txs]) in
      case st of
        Categorizer \<Rightarrow> impl Categorizer cats [txs]
      | AnomalyDetector \<Rightarrow> impl AnomalyDetector cats [categorized]
      | RecurringChargeDetector \<Rightarrow> impl RecurringChargeDetector cats [categorized]
      | DeltaCalculator \<Rightarrow> impl DeltaCalculator cats [categorized]
      | InsightGenerator \<Rightarrow>
          impl InsightGenerator cats
            [categorized,
             produced (impl AnomalyDetector cats [categorized]),
             produced (impl RecurringChargeDetector cats [categorized]),
             produced (impl DeltaCalculator cats [categorized])])"

text \<open>
  The invariant of a run. A stage that has begun has the taxonomy and transactions and
  finds every stage before it finalized; a partial output set is a part of what the stage
  makes of its complete inputs, a finalized one is all of it; the stage of every finalized
  output set has finished in the log, only stages in the log have begun, and every start
  of a stage comes after the finish of the stage before it.
\<close>

definition run_ok :: "('c, 'x) stages \<Rightarrow> ('c, 'x) run \<Rightarrow> bool" where
  "run_ok impl r =
     ((\<forall>st. outputs r st \<noteq> NotStarted \<longrightarrow>
          taxonomy r \<noteq> None \<and> transactions r \<noteq> []
          \<and> (\<forall>p\<in>set (before st). is_final (outputs r p)))
      \<and> (\<forall>st xs. outputs r st = Partial xs \<longrightarrow>
            (\<exists>cats ins. taxonomy r = Some cats \<and> inputs_of st r = Some ins
               \<and> xs = take (length xs) (produced (impl st cats ins))))
      \<and> (\<forall>st xs. outputs r st = Finalized xs \<longrightarrow>
            (\<exists>cats ins. taxonomy r = Some cats \<and> inputs_of st r = Some ins
               \<and> impl st cats ins = Completes xs))
      \<and> (\<forall>st. is_final (outputs r st) \<longrightarrow> Finished st \<in> set (stage_log r))
      \<and> (\<forall>st. Started st \<in> set (stage_log r) \<longrightarrow> outputs r st \<noteq> NotStarted)
      \<and> (\<forall>st p. predecessor st = Some p \<longrightarrow>
            preceded (\<lambda>e. e = Finished p) (\<lambda>e. e = Started st) (stage_log r)))"

text \<open>The complete inputs of a stage: the transactions for the Categorizer, and for the
  other stages the complete output sets of the stages they consume.\<close>

definition expected_inputs ::
    "('c, 'x) stages \<Rightarrow> 'c list \<Rightarrow> 'x list \<Rightarrow> stage \<Rightarrow> 'x list list" where
  "expected_inputs impl cats txs st =
     (if st = Categorizer then [txs]
      else map (\<lambda>s. produced (expected impl cats txs s)) (reads st))"

section \<open>Sample data\<close>

text \<open>A JSON string literal: the text between double quotes (for texts without escapes).\<close>

definition quoted :: "string \<Rightarrow> string" where
  "quoted s = CHR 0x22 # s @ [CHR 0x22]"

text \<open>The responses of a server that knows one session, \<^verbatim>\<open>abc-123\<close>.\<close>

definition upload_created :: response where
  "upload_created =
     \<lparr>ok = True, status = 200,
      body = Json (''{'' @ quoted ''session_id'' @ '':'' @ quoted ''abc-123'' @ ''}'')
               (JObject [(''session_id'', JString ''abc-123'')])\<rparr>"

definition analysis_ready :: response where
  "analysis_ready =
     \<lparr>ok = True, status = 200,
      body = Json (''{'' @ quoted ''status'' @ '':'' @ quoted ''ready'' @ ''}'')
               (JObject [(''status'', JString ''ready'')])\<rparr>"

definition dashboard_ready :: response where
  "dashboard_ready =
     \<lparr>ok = True, status = 200,
      body = Json (''{'' @ quoted ''insights'' @ '':[]}'')
               (JObject [(''insights'', JArray [])])\<rparr>"

definition not_found :: response where
  "not_found =
     \<lparr>ok = False, status = 404,
      body = Json (''{'' @ quoted ''detail'' @ '':'' @ quoted ''Session not found'' @ ''}'')
               (JObject [(''detail'', JString ''Session not found'')])\<rparr>"

definition bad_gateway :: response where
  "bad_gateway = \<lparr>ok = False, status = 502, body = Text ''Bad Gateway''\<rparr>"

definition null_error :: response where
  "null_error = \<lparr>ok = False, status = 500, body = Json ''null'' JNull\<rparr>"

definition list_error :: response where
  "list_error = \<lparr>ok = False, status = 422, body = Json ''[]'' (JArray [])\<rparr>"

definition no_content :: response where
  "no_content = \<lparr>ok = True, status = 204, body = Text []\<rparr>"

text \<open>
  A server that answers the dashboard request of the session only once an analysis of it
  has been answered.
\<close>

definition sample_server :: network where
  "sample_server tr req =
     (case req of
        POST_upload file \<Rightarrow> Some upload_created
      | POST_sample \<Rightarrow> Some upload_created
      | POST_analyze sid \<Rightarrow>
          Some (if sid = Some (JString ''abc-123'') then analysis_ready else not_found)
      | GET_dashboard sid \<Rightarrow>
          Some (if sid = Some (JString ''abc-123'')
                   \<and> Settled (POST_analyze sid) (Inr (JObject [(''status'', JString ''ready'')]))
                       \<in> set tr
                then dashboard_ready else not_found))"

text \<open>A summary with six expense categories, one income category and one at zero.\<close>

definition sample_category :: "rat \<Rightarrow> CategorySpending" where
  "sample_category a =
     \<lparr>amount = a, count_n = 1, icon = None, color = None, is_essential = False\<rparr>"

definition sample_summary :: SpendingSummary where
  "sample_summary =
     \<lparr>total_income = 3200, total_spending = -210, net = 2990,
      by_category =
        [(''Income'', sample_category 3200), (''Dining'', sample_category (-40)),
         (''Groceries'', sample_category (-90)), (''Transport'', sample_category (-25)),
         (''Refunds'', sample_category 0), (''Shopping'', sample_category (-30)),
         (''Utilities'', sample_category (-15)), (''Fun'', sample_category (-10))]\<rparr>"

text \<open>Stages over numbers, to run the analysis on, and the same stages with an
  AnomalyDetector that fails after its first anomaly.\<close>

definition sample_stages :: "(string, nat) stages" where
  "sample_stages st cats ins =
     (case st of
        Categorizer \<Rightarrow> Completes (map Suc (concat ins))
      | AnomalyDetector \<Rightarrow> Completes (filter (\<lambda>n. 20 < n) (concat ins))
      | RecurringChargeDetector \<Rightarrow> Completes (remdups (concat ins))
      | DeltaCalculator \<Rightarrow> Completes (map (\<lambda>n. n - 5) (concat ins))
      | InsightGenerator \<Rightarrow> Completes (concat ins))"

definition failing_stages :: "(string, nat) stages" where
  "failing_stages st cats ins =
     (case st of
        AnomalyDetector \<Rightarrow> Fails (take 1 (filter (\<lambda>n. 20 < n) (concat ins)))
      | _ \<Rightarrow> sample_stages st cats ins)"

text \<open>A run of the sample stages that has stopped part-way: the Categorizer has finished,
  the AnomalyDetector has produced the first of its two anomalies.\<close>

definition mid_run :: "(string, nat) run" where
  "mid_run =
     \<lparr>taxonomy = Some [''Dining''], transactions = [10, 20, 30],
      outputs = (\<lambda>st. NotStarted)
        (Categorizer := Finalized [11, 21, 31], AnomalyDetector := Partial [21]),
      aborted = None,
      stage_log = [Started Categorizer, Finished Categorizer, Started AnomalyDetector]\<rparr>"

section \<open>What \<^verbatim>\<open>handleResponse\<close> returns and throws\<close>

lemma string_of_nat_3_digits:
  "string_of_nat 200 = ''200''" "string_of_nat 204 = ''204''" "string_of_nat 404 = ''404''"
  "string_of_nat 422 = ''422''" "string_of_nat 500 = ''500''" "string_of_nat 502 = ''502''"
  by simp_all

text \<open>The details of the error, by what the body of the response is.\<close>

lemma error_details_cases:
  "error_details (Text s) = Some (JString s)"
  "error_details (Json s JNull) = Some (JString s)"
  "error_details (Json s (JObject kvs)) =
     or_else (object_member kvs ''detail'') (object_member kvs ''message'')"
  "error_details (Json s (JBool b)) = None"
  "error_details (Json s (JNumber n)) = None"
  "error_details (Json s (JString t)) = None"
  "error_details (Json s (JArray vs)) = None"
  by (simp_all add: error_details_def or_else_def)

lemma handleResponse_value_iff:
  "(\<exists>v. handleResponse r = Inr v) = (ok r \<and> JSON_parse (body r) \<noteq> None)"
  by (auto simp: handleResponse_def response_json_def split: option.splits)

text \<open>
  C10, as amended. For every response: \<^verbatim>\<open>handleResponse\<close> returns a value exactly when
  \<^verbatim>\<open>response.ok\<close> is true and the body parses as JSON, and the value is the parsed body; an
  ok response whose body does not parse ends in the SyntaxError of \<^verbatim>\<open>response.json()\<close>.
  For a response that is not ok it never returns a value: it throws an ApiError with the
  message \<^verbatim>\<open>API Error: <status>\<close>, whose status is the status of the response and whose
  details are
  \<^item> the raw body text when the body does not parse as JSON, and also when it parses to
    \<^verbatim>\<open>null\<close>;
  \<^item> \<^verbatim>\<open>detail || message\<close> when it parses to an object: the \<^verbatim>\<open>detail\<close> member when that is
    truthy, else the \<^verbatim>\<open>message\<close> member, \<^verbatim>\<open>undefined\<close> when there is none;
  \<^item> \<^verbatim>\<open>undefined\<close> when it parses to a boolean, a number, a string or an array.
\<close>

theorem handleResponse_contract:
  "((\<exists>v. handleResponse r = Inr v) = (ok r \<and> JSON_parse (body r) \<noteq> None))
   \<and> (ok r \<longrightarrow>
        handleResponse r =
          (case JSON_parse (body r) of Some v \<Rightarrow> Inr v | None \<Rightarrow> Inl SyntaxError))
   \<and> (\<not> ok r \<longrightarrow>
        (\<forall>v. handleResponse r \<noteq> Inr v)
        \<and> (\<exists>d. handleResponse r =
                  Inl (ApiError (''API Error: '' @ string_of_nat (status r)) (status r) d)
              \<and> (\<forall>s. body r = Text s \<longrightarrow> d = Some (JString s))
              \<and> (\<forall>s. body r = Json s JNull \<longrightarrow> d = Some (JString s))
              \<and> (\<forall>s kvs. body r = Json s (JObject kvs) \<longrightarrow>
                    d = (case object_member kvs ''detail'' of
                           Some v \<Rightarrow> if truthy v then Some v else object_member kvs ''message''
                         | None \<Rightarrow> object_member kvs ''message''))
              \<and> (\<forall>s v. body r = Json s v \<longrightarrow> v \<noteq> JNull \<longrightarrow> (\<forall>kvs. v \<noteq> JObject kvs) \<longrightarrow>
                    d = None)))"
proof (intro conjI impI)
  show "(\<exists>v. handleResponse r = Inr v) = (ok r \<and> JSON_parse (body r) \<noteq> None)"
    by (rule handleResponse_value_iff)
next
  assume "ok r"
  then show "handleResponse r =
      (case JSON_parse (body r) of Some v \<Rightarrow> Inr v | None \<Rightarrow> Inl SyntaxError)"
    by (simp add: handleResponse_def response_json_def)
next
  assume "\<not> ok r"
  then show "\<forall>v. handleResponse r \<noteq> Inr v"
    by (simp add: handleResponse_def)
next
  assume not_ok: "\<not> ok r"
  let ?d = "error_details (body r)"
  have thrown: "handleResponse r =
      Inl (ApiError (''API Error: '' @ string_of_nat (status r)) (status r) ?d)"
    using not_ok by (simp add: handleResponse_def)
  have d_text: "\<forall>s. body r = Text s \<longrightarrow> ?d = Some (JString s)"
    by (simp add: error_details_cases)
  have d_null: "\<forall>s. body r = Json s JNull \<longrightarrow> ?d = Some (JString s)"
    by (simp add: error_details_cases)
  have d_object: "\<forall>s kvs. body r = Json s (JObject kvs) \<longrightarrow>
      ?d = (case object_member kvs ''detail'' of
              Some v \<Rightarrow> if truthy v then Some v else object_member kvs ''message''
            | None \<Rightarrow> object_member kvs ''message'')"
    by (simp add: error_details_cases or_else_def)
  have d_other: "\<forall>s v. body r = Json s v \<longrightarrow> v \<noteq> JNull \<longrightarrow> (\<forall>kvs. v \<noteq> JObject kvs) \<longrightarrow> ?d = None"
  proof (intro allI impI)
    fix s v
    assume "body r = Json s v" "v \<noteq> JNull" "\<forall>kvs. v \<noteq> JObject kvs"
    then show "?d = None"
      by (cases v) (simp_all add: error_details_cases)
  qed
  from thrown d_text d_null d_object d_other
  show "\<exists>d. handleResponse r =
            Inl (ApiError (''API Error: '' @ string_of_nat (status r)) (status r) d)
        \<and> (\<forall>s. body r = Text s \<longrightarrow> d = Some (JString s))
        \<and> (\<forall>s. body r = Json s JNull \<longrightarrow> d = Some (JString s))
        \<and> (\<forall>s kvs. body r = Json s (JObject kvs) \<longrightarrow>
              d = (case object_member kvs ''detail'' of
                     Some v \<Rightarrow> if truthy v then Some v else object_member kvs ''message''
                   | None \<Rightarrow> object_member kvs ''message''))
        \<and> (\<forall>s v. body r = Json s v \<longrightarrow> v \<noteq> JNull \<longrightarrow> (\<forall>kvs. v \<noteq> JObject kvs) \<longrightarrow>
              d = None)"
    by blast
qed

text \<open>
  The contract at five responses: an upload answered with a session, a 404 with a
  \<^verbatim>\<open>detail\<close>, a 502 with a plain text, a 500 whose body is \<^verbatim>\<open>null\<close>, and a 422 whose body
  is an array.
\<close>

theorem handleResponse_contract_witness:
  "ok upload_created
   \<and> handleResponse upload_created = Inr (JObject [(''session_id'', JString ''abc-123'')])
   \<and> \<not> ok not_found
   \<and> handleResponse not_found =
        Inl (ApiError ''API Error: 404'' 404 (Some (JString ''Session not found'')))
   \<and> \<not> ok bad_gateway
   \<and> handleResponse bad_gateway =
        Inl (ApiError ''API Error: 502'' 502 (Some (JString ''Bad Gateway'')))
   \<and> \<not> ok null_error
   \<and> handleResponse null_error = Inl (ApiError ''API Error: 500'' 500 (Some (JString ''null'')))
   \<and> \<not> ok list_error
   \<and> handleResponse list_error = Inl (ApiError ''API Error: 422'' 422 None)"
proof -
  have "handleResponse upload_created = Inr (JObject [(''session_id'', JString ''abc-123'')])"
    using handleResponse_contract [of upload_created]
    by (simp add: upload_created_def)
  moreover have "handleResponse not_found =
      Inl (ApiError ''API Error: 404'' 404 (Some (JString ''Session not found'')))"
    using handleResponse_contract [of not_found]
    by (auto simp: not_found_def object_member_def string_of_nat_3_digits)
  moreover have "handleResponse bad_gateway =
      Inl (ApiError ''API Error: 502'' 502 (Some (JString ''Bad Gateway'')))"
    using handleResponse_contract [of bad_gateway]
    by (auto simp: bad_gateway_def string_of_nat_3_digits)
  moreover have "handleResponse null_error =
      Inl (ApiError ''API Error: 500'' 500 (Some (JString ''null'')))"
    using handleResponse_contract [of null_error]
    by (auto simp: null_error_def string_of_nat_3_digits)
  moreover have "handleResponse list_error = Inl (ApiError ''API Error: 422'' 422 None)"
    using handleResponse_contract [of list_error]
    by (auto simp: list_error_def string_of_nat_3_digits)
  ultimately show ?thesis
    by (simp add: upload_created_def not_found_def bad_gateway_def null_error_def
        list_error_def)
qed

text \<open>
  C10 as stated does not hold. A 204 response is ok and its body is empty: nothing is
  returned, \<^verbatim>\<open>response.json()\<close> rejects. And the body \<^verbatim>\<open>null\<close> of an error response parses
  as JSON, yet the details are the raw text \<^verbatim>\<open>null\<close>, taken from no field: the read of
  \<^verbatim>\<open>parsed.detail\<close> throws, and the \<^verbatim>\<open>catch\<close> block keeps the text.
\<close>

theorem handleResponse_ok_without_value:
  "ok no_content
   \<and> handleResponse no_content = Inl SyntaxError
   \<and> \<not> ok null_error
   \<and> JSON_parse (body null_error) = Some JNull
   \<and> handleResponse null_error = Inl (ApiError ''API Error: 500'' 500 (Some (JString ''null'')))"
  by (simp add: no_content_def null_error_def handleResponse_def response_json_def
      error_details_def)

section \<open>The data of the spending chart\<close>

lemma mset_insert_sorted: "mset (insert_sorted compareFn x ys) = add_mset x (mset ys)"
  by (induction ys) auto

lemma mset_Array_sort: "mset (Array_sort compareFn xs) = mset xs"
  by (induction xs) (auto simp: Array_sort_def mset_insert_sorted)

lemma set_insert_sorted: "set (insert_sorted compareFn x ys) = insert x (set ys)"
  by (induction ys) auto

text \<open>With the comparison \<^verbatim>\<open>(a, b) => b.value - a.value\<close>, inserting keeps a list in
  descending order of value.\<close>

lemma insert_sorted_descending:
  fixes x :: ChartDatum
  assumes "sorted_wrt (\<lambda>a b. value b \<le> value a) ys"
  shows "sorted_wrt (\<lambda>a b. value b \<le> value a)
           (insert_sorted (\<lambda>a b. value b - value a) x ys)"
  using assms by (induction ys) (auto simp: set_insert_sorted)

lemma Array_sort_descending:
  fixes xs :: "ChartDatum list"
  shows "sorted_wrt (\<lambda>a b. value b \<le> value a) (Array_sort (\<lambda>a b. value b - value a) xs)"
  by (induction xs) (auto simp: Array_sort_def intro: insert_sorted_descending)

text \<open>The sort is stable: among data of equal value the order of the entries stays.\<close>

lemma insert_sorted_filter:
  fixes x :: ChartDatum
  assumes "sorted_wrt (\<lambda>a b. value b \<le> value a) ys"
  shows "filter (\<lambda>d. value d = v) (insert_sorted (\<lambda>a b. value b - value a) x ys)
         = filter (\<lambda>d. value d = v) (x # ys)"
  using assms by (induction ys) auto

lemma Array_sort_stable:
  fixes xs :: "ChartDatum list"
  shows "filter (\<lambda>d. value d = v) (Array_sort (\<lambda>a b. value b - value a) xs)
         = filter (\<lambda>d. value d = v) xs"
proof (induction xs)
  case Nil
  then show ?case by (simp add: Array_sort_def)
next
  case (Cons x xs)
  have "Array_sort (\<lambda>a b. value b - value a) (x # xs)
        = insert_sorted (\<lambda>a b. value b - value a) x (Array_sort (\<lambda>a b. value b - value a) xs)"
    by (simp add: Array_sort_def)
  with Cons show ?case
    by (simp add: insert_sorted_filter [OF Array_sort_descending])
qed

text \<open>
  Permutation, descending order and stability determine the result: every stable sort by
  this comparison returns the list that \<open>Array_sort\<close> returns.
\<close>

lemma Array_sort_unique:
  fixes xs ys :: "ChartDatum list"
  assumes "mset ys = mset xs"
    and "sorted_wrt (\<lambda>a b. value b \<le> value a) ys"
    and "\<And>v. filter (\<lambda>d. value d = v) ys = filter (\<lambda>d. value d = v) xs"
  shows "ys = Array_sort (\<lambda>a b. value b - value a) xs"
proof -
  let ?key = "\<lambda>d::ChartDatum. - value d"
  let ?zs = "Array_sort (\<lambda>a b. value b - value a) xs"
  have "sort_key ?key xs = ys"
  proof (rule properties_for_sort_key)
    show "mset ys = mset xs" by fact
    show "sorted (map ?key ys)"
      using assms(2) by (simp add: sorted_map)
    show "filter (\<lambda>x. ?key k = ?key x) ys = filter (\<lambda>x. ?key k = ?key x) xs" for k
      using assms(3) [of "value k"] by (simp add: eq_commute)
  qed
  moreover have "sort_key ?key xs = ?zs"
  proof (rule properties_for_sort_key)
    show "mset ?zs = mset xs" by (rule mset_Array_sort)
    show "sorted (map ?key ?zs)"
      using Array_sort_descending [of xs] by (simp add: sorted_map)
    show "filter (\<lambda>x. ?key k = ?key x) ?zs = filter (\<lambda>x. ?key k = ?key x) xs" for k
      using Array_sort_stable [of "value k" xs] by (simp add: eq_commute)
  qed
  ultimately show ?thesis by simp
qed

text \<open>
  C9. For every summary, the chart data are exactly the entries of \<open>by_category\<close> with a
  strictly negative amount, each as its name, the absolute value of its amount and its
  icon (as many data as there are such entries); the list is in descending order of
  value; the legend is the first five data, fewer when there are fewer; and the note
  "+N more categories" is there exactly when there are more than five data, with
  N the number of data beyond the fifth.
\<close>

theorem SpendingChart_data:
  "mset (chartData s) =
     image_mset
       (\<lambda>e. \<lparr>name = fst e, value = \<bar>amount (snd e)\<bar>, icon = CategorySpending.icon (snd e)\<rparr>)
       (filter_mset (\<lambda>e. amount (snd e) < 0) (mset (by_category s)))
   \<and> sorted_wrt (\<lambda>a b. value b \<le> value a) (chartData s)
   \<and> legend s = take 5 (chartData s)
   \<and> length (legend s) = min 5 (length (chartData s))
   \<and> ((more_categories s \<noteq> None) = (5 < length (chartData s)))
   \<and> (5 < length (chartData s) \<longrightarrow>
        more_categories s =
          Some (''+'' @ string_of_nat (length (chartData s) - 5) @ '' more categories''))"
proof -
  have "mset (chartData s) =
     image_mset
       (\<lambda>e. \<lparr>name = fst e, value = \<bar>amount (snd e)\<bar>, icon = CategorySpending.icon (snd e)\<rparr>)
       (filter_mset (\<lambda>e. amount (snd e) < 0) (mset (by_category s)))"
    by (auto simp: chartData_def mset_Array_sort case_prod_beta intro!: image_mset_cong)
  moreover have "sorted_wrt (\<lambda>a b. value b \<le> value a) (chartData s)"
    unfolding chartData_def by (rule Array_sort_descending)
  moreover have "length (legend s) = min 5 (length (chartData s))"
    by (simp add: legend_def min.commute)
  ultimately show ?thesis
    by (simp add: legend_def more_categories_def)
qed

text \<open>The chart of the sample summary: six expenses, so one category beyond the legend.\<close>

lemma chartData_sample:
  "chartData sample_summary =
     [\<lparr>name = ''Groceries'', value = 90, icon = None\<rparr>,
      \<lparr>name = ''Dining'', value = 40, icon = None\<rparr>,
      \<lparr>name = ''Shopping'', value = 30, icon = None\<rparr>,
      \<lparr>name = ''Transport'', value = 25, icon = None\<rparr>,
      \<lparr>name = ''Utilities'', value = 15, icon = None\<rparr>,
      \<lparr>name = ''Fun'', value = 10, icon = None\<rparr>]"
  by (simp add: chartData_def sample_summary_def sample_category_def Array_sort_def)

theorem SpendingChart_data_witness:
  "5 < length (chartData sample_summary)
   \<and> more_categories sample_summary = Some ''+1 more categories''
   \<and> map name (legend sample_summary)
       = [''Groceries'', ''Dining'', ''Shopping'', ''Transport'', ''Utilities'']
   \<and> sorted_wrt (\<lambda>a b. value b \<le> value a) (chartData sample_summary)"
  using SpendingChart_data [of sample_summary]
  by (simp add: chartData_sample)

section \<open>The order of the stages and of the requests\<close>

subsection \<open>Events that come before others\<close>

lemma preceded_Nil: "preceded P Q []"
  by (simp add: preceded_def)

lemma preceded_Cons: "preceded P Q (e # es) = (\<not> Q e \<and> (P e \<or> preceded P Q es))"
proof -
  have "preceded P Q (e # es) =
        (\<not> Q e \<and> (\<forall>i<length es. Q (es ! i) \<longrightarrow> (\<exists>j<Suc i. P ((e # es) ! j))))"
    unfolding preceded_def by (auto simp: All_less_Suc2 simp del: nth_Cons_Suc)
  also have "\<dots> = (\<not> Q e \<and> (\<forall>i<length es. Q (es ! i) \<longrightarrow> (P e \<or> (\<exists>j<i. P (es ! j)))))"
    by (simp add: Ex_less_Suc2)
  also have "\<dots> = (\<not> Q e \<and> (P e \<or> preceded P Q es))"
    unfolding preceded_def by blast
  finally show ?thesis .
qed

lemma preceded_append:
  assumes "preceded P Q xs" and "(\<exists>x\<in>set xs. P x) \<or> preceded P Q ys"
  shows "preceded P Q (xs @ ys)"
  using assms
proof (induction xs)
  case Nil
  then show ?case by simp
next
  case (Cons x xs)
  then show ?case
    by (induction ys) (auto simp: preceded_Cons preceded_Nil)
qed

lemma awaited_Nil: "awaited []"
  by (simp add: awaited_def)

lemma awaited_Cons:
  "awaited (e # es) =
     ((case e of
         Sent req \<Rightarrow> (case es of [] \<Rightarrow> False | e' # es' \<Rightarrow> (\<exists>result. e' = Settled req result))
       | _ \<Rightarrow> True)
      \<and> awaited es)"
  unfolding awaited_def
  by (auto simp: All_less_Suc2 split: event.splits list.splits)

subsection \<open>The requests of the client flow\<close>

lemmas flow_defs =
  uploadAndAnalyze_def loadSampleAndAnalyze_def uploadCSV_def useSampleData_def
  analyzeSession_def getDashboard_def fetch_json_def notify_def

lemmas trace_simps = preceded_Cons preceded_Nil awaited_Cons awaited_Nil

lemma uploadAndAnalyze_order:
  fixes fetch :: network and csv :: string and onProgress :: bool
  defines "tr \<equiv> snd (uploadAndAnalyze fetch csv onProgress [])"
  shows "preceded (\<lambda>e. \<exists>v. e = Settled (POST_upload csv) (Inr v))
           (\<lambda>e. \<exists>sid. e = Sent (POST_analyze sid)) tr"
    and "preceded (\<lambda>e. \<exists>v. e = Settled (POST_analyze sid) (Inr v))
           (\<lambda>e. e = Sent (GET_dashboard sid)) tr"
    and "preceded (\<lambda>e. \<exists>sid' v. e = Settled (POST_analyze sid') (Inr v))
           (\<lambda>e. \<exists>sid'. e = Sent (GET_dashboard sid')) tr"
    and "awaited tr"
  unfolding tr_def
  by (auto simp: flow_defs Let_def trace_simps
           split: prod.splits sum.splits if_splits option.splits)

lemma loadSampleAndAnalyze_order:
  fixes fetch :: network and onProgress :: bool
  defines "tr \<equiv> snd (loadSampleAndAnalyze fetch onProgress [])"
  shows "preceded (\<lambda>e. \<exists>v. e = Settled POST_sample (Inr v))
           (\<lambda>e. \<exists>sid. e = Sent (POST_analyze sid)) tr"
    and "preceded (\<lambda>e. \<exists>v. e = Settled (POST_analyze sid) (Inr v))
           (\<lambda>e. e = Sent (GET_dashboard sid)) tr"
    and "preceded (\<lambda>e. \<exists>sid' v. e = Settled (POST_analyze sid') (Inr v))
           (\<lambda>e. \<exists>sid'. e = Sent (GET_dashboard sid')) tr"
    and "awaited tr"
  unfolding tr_def
  by (auto simp: flow_defs Let_def trace_simps
           split: prod.splits sum.splits if_splits option.splits)

subsection \<open>The stages of an analysis run\<close>

lemma before_predecessor:
  "predecessor st = Some p \<Longrightarrow> set (before st) = insert p (set (before p))"
  by (cases st) auto

lemma reads_before: "s \<in> set (reads st) \<Longrightarrow> s \<in> set (before st)"
  by (cases st) auto

lemma not_before_self: "st \<notin> set (before st)"
  by (cases st) auto

lemma before_linear: "st \<noteq> s \<Longrightarrow> st \<in> set (before s) \<or> s \<in> set (before st)"
  by (cases st; cases s; simp)

lemma is_final_iff: "is_final out = (\<exists>xs. out = Finalized xs)"
  by (cases out) auto

lemma inputs_of_cong:
  assumes "transactions r' = transactions r"
    and "\<And>s. s \<in> set (reads st) \<Longrightarrow> outputs r' s = outputs r s"
  shows "inputs_of st r' = inputs_of st r"
proof -
  have eq: "map (\<lambda>s. final_output (outputs r' s)) (reads st)
        = map (\<lambda>s. final_output (outputs r s)) (reads st)"
    using assms(2) by (intro map_cong) auto
  show ?thesis
    by (simp only: inputs_of_def eq assms(1))
qed

lemma run_ok_new_run: "run_ok impl (new_run cats txs)"
  by (simp add: run_ok_def new_run_def preceded_Nil)

text \<open>A stage at work, or starting, changes its own output set only; the inputs of the
  stages that have begun stay as they are.\<close>

lemma run_ok_update:
  assumes ok: "run_ok impl r"
    and s0: "\<not> is_final (outputs r s0)" "v \<noteq> NotStarted"
    and given: "taxonomy r \<noteq> None" "transactions r \<noteq> []"
      "\<And>p. p \<in> set (before s0) \<Longrightarrow> is_final (outputs r p)"
    and partial: "\<And>xs. v = Partial xs \<Longrightarrow>
        \<exists>cats ins. taxonomy r = Some cats \<and> inputs_of s0 r = Some ins
          \<and> xs = take (length xs) (produced (impl s0 cats ins))"
    and final: "\<And>xs. v = Finalized xs \<Longrightarrow>
        \<exists>cats ins. taxonomy r = Some cats \<and> inputs_of s0 r = Some ins
          \<and> impl s0 cats ins = Completes xs"
    and log: "set (stage_log r) \<subseteq> set L" "is_final v \<Longrightarrow> Finished s0 \<in> set L"
      "\<And>st. Started st \<in> set L \<Longrightarrow> st = s0 \<or> Started st \<in> set (stage_log r)"
      "\<And>st p. predecessor st = Some p \<Longrightarrow>
         preceded (\<lambda>e. e = Finished p) (\<lambda>e. e = Started st) L"
  shows "run_ok impl (r\<lparr>outputs := (outputs r)(s0 := v), stage_log := L\<rparr>)"
proof -
  let ?r' = "r\<lparr>outputs := (outputs r)(s0 := v), stage_log := L\<rparr>"
  have before_final: "is_final (outputs r p)" if "outputs r st \<noteq> NotStarted" "p \<in> set (before st)"
    for st p
    using ok that by (simp add: run_ok_def)
  have other: "p \<noteq> s0" if "is_final (outputs r p)" for p
    using that s0(1) by auto
  have inputs: "inputs_of st ?r' = inputs_of st r"
    if "st = s0 \<or> outputs r st \<noteq> NotStarted" for st
  proof (rule inputs_of_cong)
    show "transactions ?r' = transactions r" by simp
    fix s assume s: "s \<in> set (reads st)"
    then have "s \<in> set (before st)" by (rule reads_before)
    with that given(3) before_final have "is_final (outputs r s)"
      by blast
    then have "s \<noteq> s0" by (rule other)
    then show "outputs ?r' s = outputs r s" by simp
  qed
  have c1: "taxonomy ?r' \<noteq> None \<and> transactions ?r' \<noteq> []
      \<and> (\<forall>p\<in>set (before st). is_final (outputs ?r' p))"
    if "outputs ?r' st \<noteq> NotStarted" for st
  proof (cases "st = s0")
    case True
    with given other show ?thesis by auto
  next
    case False
    with that have "outputs r st \<noteq> NotStarted" by simp
    with before_final other given show ?thesis by auto
  qed
  have c2: "\<exists>cats ins. taxonomy ?r' = Some cats \<and> inputs_of st ?r' = Some ins
      \<and> xs = take (length xs) (produced (impl st cats ins))"
    if "outputs ?r' st = Partial xs" for st xs
  proof (cases "st = s0")
    case True
    with that partial [of xs] inputs [of s0] show ?thesis by simp
  next
    case False
    with that have st: "outputs r st = Partial xs" by simp
    with ok have "\<exists>cats ins. taxonomy r = Some cats \<and> inputs_of st r = Some ins
        \<and> xs = take (length xs) (produced (impl st cats ins))"
      unfolding run_ok_def by blast
    with st inputs [of st] show ?thesis by simp
  qed
  have c3: "\<exists>cats ins. taxonomy ?r' = Some cats \<and> inputs_of st ?r' = Some ins
      \<and> impl st cats ins = Completes xs"
    if "outputs ?r' st = Finalized xs" for st xs
  proof (cases "st = s0")
    case True
    with that final [of xs] inputs [of s0] show ?thesis by simp
  next
    case False
    with that have st: "outputs r st = Finalized xs" by simp
    with ok have "\<exists>cats ins. taxonomy r = Some cats \<and> inputs_of st r = Some ins
        \<and> impl st cats ins = Completes xs"
      unfolding run_ok_def by blast
    with st inputs [of st] show ?thesis by simp
  qed
  have c4: "Finished st \<in> set (stage_log ?r')" if "is_final (outputs ?r' st)" for st
  proof (cases "st = s0")
    case True
    with that log(2) show ?thesis by simp
  next
    case False
    with that have "is_final (outputs r st)" by simp
    with ok have "Finished st \<in> set (stage_log r)" by (simp add: run_ok_def)
    with log(1) show ?thesis by auto
  qed
  have c5: "outputs ?r' st \<noteq> NotStarted" if "Started st \<in> set (stage_log ?r')" for st
  proof (cases "st = s0")
    case True
    with s0(2) show ?thesis by simp
  next
    case False
    with that log(3) [of st] have "Started st \<in> set (stage_log r)" by simp
    with ok have "outputs r st \<noteq> NotStarted" by (simp add: run_ok_def)
    with False show ?thesis by simp
  qed
  have c6: "preceded (\<lambda>e. e = Finished p) (\<lambda>e. e = Started st) (stage_log ?r')"
    if "predecessor st = Some p" for st p
    using log(4) [OF that] by simp
  show ?thesis
    unfolding run_ok_def using c1 c2 c3 c4 c5 c6 by blast
qed

lemma run_ok_abort:
  assumes "run_ok impl r"
  shows "run_ok impl (abort f r)"
proof -
  have inputs: "inputs_of st (abort f r) = inputs_of st r" for st
    by (simp add: inputs_of_def abort_def)
  have "preceded (\<lambda>e. e = Finished p) (\<lambda>e. e = Started st) (stage_log r @ [Aborted f])"
    if "preceded (\<lambda>e. e = Finished p) (\<lambda>e. e = Started st) (stage_log r)" for st p
    using that by (intro preceded_append) (auto simp: preceded_Cons preceded_Nil)
  with assms show ?thesis
    unfolding run_ok_def inputs by (simp add: abort_def)
qed

lemma run_ok_step:
  assumes "run_ok impl r" and "step impl r r'"
  shows "run_ok impl r'"
  using assms(2)
proof cases
  case abort_taxonomy
  with assms(1) show ?thesis by (simp add: run_ok_abort)
next
  case abort_empty
  with assms(1) show ?thesis by (simp add: run_ok_abort)
next
  case (fail st xs cats ins)
  with assms(1) show ?thesis by (simp add: run_ok_abort)
next
  case (start st)
  from start(5) have fresh: "outputs r st = NotStarted"
    by (simp add: may_begin_def)
  have before: "is_final (outputs r p)" if "p \<in> set (before st)" for p
  proof (cases "predecessor st")
    case None
    with that show ?thesis by (cases st) auto
  next
    case (Some q)
    with start(5) have q: "is_final (outputs r q)"
      by (simp add: may_begin_def)
    then have "outputs r q \<noteq> NotStarted" by auto
    with assms(1) have "\<forall>p\<in>set (before q). is_final (outputs r p)"
      by (simp add: run_ok_def)
    with q that before_predecessor [OF Some] show ?thesis by auto
  qed
  obtain cats where cats: "taxonomy r = Some cats"
    using start(3) by auto
  have "\<exists>ins. inputs_of st r = Some ins"
  proof (cases "st = Categorizer")
    case True
    then show ?thesis by (simp add: inputs_of_def)
  next
    case False
    have "\<forall>s\<in>set (reads st). \<exists>ys. outputs r s = Finalized ys"
      using before reads_before by (auto simp: is_final_iff)
    then have "\<exists>ins. those (map (\<lambda>s. final_output (outputs r s)) (reads st)) = Some ins"
      by (cases st) auto
    with False show ?thesis by (simp add: inputs_of_def)
  qed
  with cats have partial: "\<exists>cats ins. taxonomy r = Some cats \<and> inputs_of st r = Some ins"
    by auto
  have order: "preceded (\<lambda>e. e = Finished p) (\<lambda>e. e = Started s) (stage_log r @ [Started st])"
    if "predecessor s = Some p" for s p
  proof -
    from assms(1) that
    have old: "preceded (\<lambda>e. e = Finished p) (\<lambda>e. e = Started s) (stage_log r)"
      by (simp add: run_ok_def)
    show ?thesis
    proof (cases "s = st")
      case True
      with that start(5) have "is_final (outputs r p)"
        by (simp add: may_begin_def)
      with assms(1) have "Finished p \<in> set (stage_log r)"
        by (simp add: run_ok_def)
      with old show ?thesis by (intro preceded_append) auto
    next
      case False
      then have "preceded (\<lambda>e. e = Finished p) (\<lambda>e. e = Started s) [Started st]"
        by (auto simp: preceded_Cons preceded_Nil)
      with old show ?thesis by (intro preceded_append) auto
    qed
  qed
  have "run_ok impl
      (r\<lparr>outputs := (outputs r)(st := Partial []), stage_log := stage_log r @ [Started st]\<rparr>)"
  proof (rule run_ok_update [OF assms(1)])
    show "\<not> is_final (outputs r st)" using fresh by simp
    show "Partial [] \<noteq> NotStarted" by simp
    show "taxonomy r \<noteq> None" by fact
    show "transactions r \<noteq> []" by fact
    show "is_final (outputs r p)" if "p \<in> set (before st)" for p
      using that by (rule before)
    show "\<exists>cats ins. taxonomy r = Some cats \<and> inputs_of st r = Some ins
        \<and> zs = take (length zs) (produced (impl st cats ins))"
      if "Partial [] = Partial zs" for zs
      using that partial by auto
    show "\<exists>cats ins. taxonomy r = Some cats \<and> inputs_of st r = Some ins
        \<and> impl st cats ins = Completes zs"
      if "Partial [] = Finalized zs" for zs
      using that by simp
    show "set (stage_log r) \<subseteq> set (stage_log r @ [Started st])" by auto
    show "Finished st \<in> set (stage_log r @ [Started st])" if "is_final (Partial [])"
      using that by simp
    show "s = st \<or> Started s \<in> set (stage_log r)"
      if "Started s \<in> set (stage_log r @ [Started st])" for s
      using that by auto
    show "preceded (\<lambda>e. e = Finished p) (\<lambda>e. e = Started s) (stage_log r @ [Started st])"
      if "predecessor s = Some p" for s p
      using that by (rule order)
  qed
  with start(1) show ?thesis by simp
next
  case (emit st xs cats ins)
  let ?full = "produced (impl st cats ins)"
  let ?ys = "take (Suc (length xs)) ?full"
  from emit(3) have begun: "outputs r st \<noteq> NotStarted" by simp
  with assms(1) have given: "transactions r \<noteq> []" "\<forall>p\<in>set (before st). is_final (outputs r p)"
    by (simp_all add: run_ok_def)
  from emit(6) have part: "?ys = take (length ?ys) ?full"
    by simp
  have "run_ok impl (r\<lparr>outputs := (outputs r)(st := Partial ?ys), stage_log := stage_log r\<rparr>)"
  proof (rule run_ok_update [OF assms(1)])
    show "\<not> is_final (outputs r st)" using emit(3) by simp
    show "Partial ?ys \<noteq> NotStarted" by simp
    show "taxonomy r \<noteq> None" using emit(4) by simp
    show "transactions r \<noteq> []" by fact
    show "is_final (outputs r p)" if "p \<in> set (before st)" for p
      using given(2) that by blast
    show "\<exists>cats ins. taxonomy r = Some cats \<and> inputs_of st r = Some ins
        \<and> zs = take (length zs) (produced (impl st cats ins))"
      if "Partial ?ys = Partial zs" for zs
      using that part emit(4,5) by auto
    show "\<exists>cats ins. taxonomy r = Some cats \<and> inputs_of st r = Some ins
        \<and> impl st cats ins = Completes zs"
      if "Partial ?ys = Finalized zs" for zs
      using that by simp
    show "set (stage_log r) \<subseteq> set (stage_log r)" by simp
    show "Finished st \<in> set (stage_log r)" if "is_final (Partial ?ys)"
      using that by simp
    show "s = st \<or> Started s \<in> set (stage_log r)" if "Started s \<in> set (stage_log r)" for s
      using that by simp
    show "preceded (\<lambda>e. e = Finished p) (\<lambda>e. e = Started s) (stage_log r)"
      if "predecessor s = Some p" for s p
      using assms(1) that by (simp add: run_ok_def)
  qed
  with emit(1) show ?thesis by simp
next
  case (finish st xs cats ins)
  from finish(3) have begun: "outputs r st \<noteq> NotStarted" by simp
  with assms(1) have given: "transactions r \<noteq> []" "\<forall>p\<in>set (before st). is_final (outputs r p)"
    by (simp_all add: run_ok_def)
  have order: "preceded (\<lambda>e. e = Finished p) (\<lambda>e. e = Started s) (stage_log r @ [Finished st])"
    if "predecessor s = Some p" for s p
  proof -
    from assms(1) that
    have "preceded (\<lambda>e. e = Finished p) (\<lambda>e. e = Started s) (stage_log r)"
      by (simp add: run_ok_def)
    moreover have "preceded (\<lambda>e. e = Finished p) (\<lambda>e. e = Started s) [Finished st]"
      by (auto simp: preceded_Cons preceded_Nil)
    ultimately show ?thesis by (intro preceded_append) auto
  qed
  have "run_ok impl
      (r\<lparr>outputs := (outputs r)(st := Finalized xs), stage_log := stage_log r @ [Finished st]\<rparr>)"
  proof (rule run_ok_update [OF assms(1)])
    show "\<not> is_final (outputs r st)" using finish(3) by simp
    show "Finalized xs \<noteq> NotStarted" by simp
    show "taxonomy r \<noteq> None" using finish(4) by simp
    show "transactions r \<noteq> []" by fact
    show "is_final (outputs r p)" if "p \<in> set (before st)" for p
      using given(2) that by blast
    show "\<exists>cats ins. taxonomy r = Some cats \<and> inputs_of st r = Some ins
        \<and> zs = take (length zs) (produced (impl st cats ins))"
      if "Finalized xs = Partial zs" for zs
      using that by simp
    show "\<exists>cats ins. taxonomy r = Some cats \<and> inputs_of st r = Some ins
        \<and> impl st cats ins = Completes zs"
      if "Finalized xs = Finalized zs" for zs
      using that finish(4,5,6) by auto
    show "set (stage_log r) \<subseteq> set (stage_log r @ [Finished st])" by auto
    show "Finished st \<in> set (stage_log r @ [Finished st])" by simp
    show "s = st \<or> Started s \<in> set (stage_log r)"
      if "Started s \<in> set (stage_log r @ [Finished st])" for s
      using that by simp
    show "preceded (\<lambda>e. e = Finished p) (\<lambda>e. e = Started s) (stage_log r @ [Finished st])"
      if "predecessor s = Some p" for s p
      using that by (rule order)
  qed
  with finish(1) show ?thesis by simp
qed

lemma run_ok_steps:
  assumes "rtranclp (step impl) r r'" and "run_ok impl r"
  shows "run_ok impl r'"
  using assms by (induction rule: rtranclp_induct) (auto intro: run_ok_step)

lemma reachable_run_ok: "reachable impl cats txs r \<Longrightarrow> run_ok impl r"
  unfolding reachable_def using run_ok_new_run by (rule run_ok_steps [rotated])

text \<open>A run keeps what it was given, and a finalized output set stays as it is.\<close>

lemma step_given:
  assumes "step impl r r'"
  shows "taxonomy r' = taxonomy r" and "transactions r' = transactions r"
  using assms by (cases; simp add: abort_def)+

lemma reachable_given:
  assumes "reachable impl cats txs r"
  shows "taxonomy r = cats \<and> transactions r = txs"
  using assms unfolding reachable_def
  by (induction rule: rtranclp_induct) (auto simp: new_run_def step_given)

lemma step_keeps_final:
  assumes "step impl r r'" and "outputs r st = Finalized xs"
  shows "outputs r' st = Finalized xs"
  using assms by cases (auto simp: abort_def may_begin_def)

lemma steps_keep_final:
  assumes "rtranclp (step impl) r r'" and "outputs r st = Finalized xs"
  shows "outputs r' st = Finalized xs"
  using assms by (induction rule: rtranclp_induct) (auto intro: step_keeps_final)

lemma step_not_aborted: "step impl r r' \<Longrightarrow> aborted r = None"
  by (cases rule: step.cases) auto

text \<open>Every output set is made from the complete output sets of the stages it consumes.\<close>

lemma expected_eq: "expected impl cats txs st = impl st cats (expected_inputs impl cats txs st)"
  by (cases st) (simp_all add: expected_def expected_inputs_def Let_def)

lemma final_output_Some: "(final_output out = Some ys) = (out = Finalized ys)"
  by (cases out) auto

lemma final_is_expected:
  assumes ok: "run_ok impl r" and given: "taxonomy r = Some cats" "transactions r = txs"
    and fin: "outputs r st = Finalized xs"
  shows "expected impl cats txs st = Completes xs"
proof -
  have made: "\<exists>ins. inputs_of s r = Some ins \<and> impl s cats ins = Completes ys"
    if "outputs r s = Finalized ys" for s ys
    using ok given(1) that unfolding run_ok_def by fastforce
  have c: "impl Categorizer cats [txs] = Completes ys" if "outputs r Categorizer = Finalized ys" for ys
    using made [OF that] given(2) by (simp add: inputs_of_def)
  have detector: "impl s cats [produced (impl Categorizer cats [txs])] = Completes ys"
    if "outputs r s = Finalized ys" "reads s = [Categorizer]" "s \<noteq> Categorizer" for s ys
  proof -
    from made [OF that(1)] obtain ins
      where ins: "inputs_of s r = Some ins" "impl s cats ins = Completes ys"
      by blast
    from ins(1) that(2,3) obtain cs where "outputs r Categorizer = Finalized cs" "ins = [cs]"
      by (auto simp: inputs_of_def final_output_Some split: option.splits)
    with c [of cs] ins(2) show ?thesis by simp
  qed
  show ?thesis
  proof (cases st)
    case Categorizer
    with fin c show ?thesis by (simp add: expected_def)
  next
    case AnomalyDetector
    with fin detector [of st xs] show ?thesis by (simp add: expected_def)
  next
    case RecurringChargeDetector
    with fin detector [of st xs] show ?thesis by (simp add: expected_def)
  next
    case DeltaCalculator
    with fin detector [of st xs] show ?thesis by (simp add: expected_def)
  next
    case InsightGenerator
    from made [OF fin] obtain ins
      where ins: "inputs_of st r = Some ins" "impl st cats ins = Completes xs"
      by blast
    from ins(1) InsightGenerator obtain cs an rc de
      where outs: "outputs r Categorizer = Finalized cs" "outputs r AnomalyDetector = Finalized an"
        "outputs r RecurringChargeDetector = Finalized rc" "outputs r DeltaCalculator = Finalized de"
        and "ins = [cs, an, rc, de]"
      by (auto simp: inputs_of_def final_output_Some split: option.splits)
    with c [of cs] detector [of AnomalyDetector an] detector [of RecurringChargeDetector rc]
      detector [of DeltaCalculator de] ins(2) InsightGenerator
    show ?thesis by (simp add: expected_def)
  qed
qed

lemma begun_inputs:
  assumes ok: "run_ok impl r" and given: "taxonomy r = Some cats" "transactions r = txs"
    and begun: "outputs r st \<noteq> NotStarted"
  shows "inputs_of st r = Some (expected_inputs impl cats txs st)"
proof (cases "st = Categorizer")
  case True
  with given(2) show ?thesis by (simp add: inputs_of_def expected_inputs_def)
next
  case False
  have "final_output (outputs r s) = Some (produced (expected impl cats txs s))"
    if "s \<in> set (reads st)" for s
  proof -
    from that have "s \<in> set (before st)" by (rule reads_before)
    with ok begun have "is_final (outputs r s)" by (simp add: run_ok_def)
    then obtain ys where ys: "outputs r s = Finalized ys" by (auto simp: is_final_iff)
    from final_is_expected [OF ok given ys] ys show ?thesis by simp
  qed
  then have "map (\<lambda>s. final_output (outputs r s)) (reads st)
      = map (\<lambda>s. Some (produced (expected impl cats txs s))) (reads st)"
    by (intro map_cong) auto
  then have "those (map (\<lambda>s. final_output (outputs r s)) (reads st))
      = Some (map (\<lambda>s. produced (expected impl cats txs s)) (reads st))"
    by (cases st) simp_all
  with False show ?thesis by (simp add: inputs_of_def expected_inputs_def)
qed

lemma partial_is_expected:
  assumes ok: "run_ok impl r" and given: "taxonomy r = Some cats" "transactions r = txs"
    and part: "outputs r st = Partial xs"
  shows "xs = take (length xs) (produced (expected impl cats txs st))"
proof -
  from part have "outputs r st \<noteq> NotStarted" by simp
  from begun_inputs [OF ok given this] ok given(1) part show ?thesis
    unfolding run_ok_def expected_eq by fastforce
qed

lemma run_ok_before:
  assumes "run_ok impl r" and "outputs r st \<noteq> NotStarted" and "p \<in> set (before st)"
  shows "is_final (outputs r p)"
  using assms unfolding run_ok_def by blast

text \<open>At most one stage is at work.\<close>

lemma one_at_work:
  assumes ok: "run_ok impl r" and "outputs r st = Partial xs" and "outputs r s = Partial ys"
  shows "st = s"
proof (rule ccontr)
  assume "st \<noteq> s"
  then consider "st \<in> set (before s)" | "s \<in> set (before st)"
    using before_linear by blast
  then show False
  proof cases
    case 1
    from assms(3) have "outputs r s \<noteq> NotStarted" by simp
    from run_ok_before [OF ok this 1] assms(2) show False by simp
  next
    case 2
    from assms(2) have "outputs r st \<noteq> NotStarted" by simp
    from run_ok_before [OF ok this 2] assms(3) show False by simp
  qed
qed

text \<open>The run that the server executes is a run of the steps.\<close>

lemma emit_steps:
  fixes r :: "('c, 'x) run"
  assumes r: "aborted r = None" "taxonomy r = Some cats" "inputs_of st r = Some ins"
    and n: "n \<le> length (produced (impl st cats ins))"
  shows "rtranclp (step impl)
           (r\<lparr>outputs := (outputs r)(st := Partial [])\<rparr>)
           (r\<lparr>outputs := (outputs r)(st := Partial (take n (produced (impl st cats ins))))\<rparr>)"
  using n
proof (induction n)
  case 0
  show ?case by simp
next
  case (Suc n)
  let ?full = "produced (impl st cats ins)"
  let ?at = "\<lambda>k. r\<lparr>outputs := (outputs r)(st := Partial (take k ?full))\<rparr>"
  have "st \<notin> set (reads st)"
    using reads_before not_before_self by blast
  then have "inputs_of st (?at n) = inputs_of st r"
    by (intro inputs_of_cong) auto
  with r Suc.prems
  have "step impl (?at n)
      ((?at n)\<lparr>outputs := (outputs (?at n))
          (st := Partial (take (Suc (length (take n ?full))) ?full))\<rparr>)"
    by (intro step.emit [where cats = cats and ins = ins]) auto
  moreover from Suc.prems have "length (take n ?full) = n" by simp
  ultimately have next_one: "step impl (?at n) (?at (Suc n))" by simp
  from Suc.prems have "n \<le> length ?full" by simp
  from Suc.IH [OF this] next_one show ?case
    by (rule rtranclp.rtrancl_into_rtrancl)
qed

lemma run_stage_given:
  "taxonomy (run_stage impl st r) = taxonomy r"
  "transactions (run_stage impl st r) = transactions r"
  by (simp_all add: run_stage_def abort_def Let_def split: option.splits outcome.splits)

lemma run_stage_steps:
  fixes r :: "('c, 'x) run"
  assumes "transactions r \<noteq> []"
  shows "rtranclp (step impl) r (run_stage impl st r)"
proof (cases "aborted r = None \<and> may_begin st r
    \<and> (\<exists>cats ins. taxonomy r = Some cats \<and> inputs_of st r = Some ins)")
  case False
  then have "run_stage impl st r = r"
    by (auto simp: run_stage_def split: option.splits)
  then show ?thesis by simp
next
  case True
  then obtain cats ins where r: "aborted r = None" "may_begin st r"
    "taxonomy r = Some cats" "inputs_of st r = Some ins"
    by blast
  let ?full = "produced (impl st cats ins)"
  let ?b = "r\<lparr>stage_log := stage_log r @ [Started st]\<rparr>"
  let ?at = "\<lambda>v. r\<lparr>outputs := (outputs r)(st := v), stage_log := stage_log r @ [Started st]\<rparr>"
  have at: "?b\<lparr>outputs := (outputs ?b)(st := v)\<rparr> = ?at v" for v
    by (cases r) simp
  have "st \<notin> set (reads st)"
    using reads_before not_before_self by blast
  then have inputs: "inputs_of st (?at v) = Some ins" for v
    using r(4) by (subst inputs_of_cong [where r = r]) auto
  have "inputs_of st ?b = Some ins"
    using r(4) by (subst inputs_of_cong [where r = r]) auto
  have started: "step impl r (?at (Partial []))"
    using step.start [of r st impl] r assms by simp
  have "rtranclp (step impl)
      (?b\<lparr>outputs := (outputs ?b)(st := Partial [])\<rparr>)
      (?b\<lparr>outputs := (outputs ?b)(st := Partial (take (length ?full) ?full))\<rparr>)"
    using r \<open>inputs_of st ?b = Some ins\<close>
    by (intro emit_steps) simp_all
  then have worked: "rtranclp (step impl) (?at (Partial [])) (?at (Partial ?full))"
    unfolding at by simp
  have last: "step impl (?at (Partial ?full)) (run_stage impl st r)"
  proof (cases "impl st cats ins")
    case (Completes xs)
    have "step impl (?at (Partial ?full))
        ((?at (Partial ?full))\<lparr>outputs := (outputs (?at (Partial ?full)))(st := Finalized xs),
             stage_log := stage_log (?at (Partial ?full)) @ [Finished st]\<rparr>)"
      using r Completes inputs [of "Partial ?full"]
      by (intro step.finish [where cats = cats and ins = ins]) simp_all
    moreover have "run_stage impl st r
        = (?at (Partial ?full))\<lparr>outputs := (outputs (?at (Partial ?full)))(st := Finalized xs),
             stage_log := stage_log (?at (Partial ?full)) @ [Finished st]\<rparr>"
      using r Completes by (cases r) (simp add: run_stage_def)
    ultimately show ?thesis by simp
  next
    case (Fails xs)
    have "step impl (?at (Partial ?full)) (abort (StageFailed st) (?at (Partial ?full)))"
      using r Fails inputs [of "Partial ?full"]
      by (intro step.fail [where cats = cats and ins = ins and xs = xs]) simp_all
    moreover have "run_stage impl st r = abort (StageFailed st) (?at (Partial ?full))"
      using r Fails by (cases r) (simp add: run_stage_def abort_def)
    ultimately show ?thesis by simp
  qed
  from started worked last show ?thesis
    by (meson converse_rtranclp_into_rtranclp rtranclp.rtrancl_into_rtrancl)
qed

lemma run_stages_steps:
  assumes "transactions r \<noteq> []"
  shows "rtranclp (step impl) r (fold (run_stage impl) sts r)"
  using assms
proof (induction sts arbitrary: r)
  case Nil
  show ?case by simp
next
  case (Cons st sts)
  from Cons.prems have "rtranclp (step impl) r (run_stage impl st r)"
    by (rule run_stage_steps)
  moreover from Cons.prems
  have "rtranclp (step impl) (run_stage impl st r) (fold (run_stage impl) sts (run_stage impl st r))"
    by (intro Cons.IH) (simp add: run_stage_given)
  ultimately show ?case by simp
qed

lemma analysis_run_reachable: "reachable impl cats txs (analysis_run impl cats txs)"
proof -
  have "step impl (new_run None txs) (abort TaxonomyMissing (new_run None txs))"
    by (rule step.abort_taxonomy) (simp_all add: new_run_def)
  moreover have "step impl (new_run cats []) (abort EmptyTransactionSet (new_run cats []))"
    by (rule step.abort_empty) (simp_all add: new_run_def)
  moreover have "rtranclp (step impl) (new_run cats txs)
      (fold (run_stage impl) all_stages (new_run cats txs))" if "txs \<noteq> []"
    using that by (intro run_stages_steps) (simp add: new_run_def)
  ultimately show ?thesis
    by (auto simp: reachable_def analysis_run_def)
qed

text \<open>What the executed run ends in: an abort on a fatal error of its input, all five output
  sets when every stage completes, and an abort at the first stage that fails.\<close>

lemmas run_simps =
  analysis_run_def all_stages_def run_stage_def may_begin_def new_run_def inputs_of_def
  abort_def expected_def Let_def

lemma analysis_run_no_input:
  "analysis_run impl None txs = abort TaxonomyMissing (new_run None txs)"
  "analysis_run impl (Some cats) [] = abort EmptyTransactionSet (new_run (Some cats) [])"
  by (simp_all add: analysis_run_def)

lemma analysis_run_completes:
  assumes "txs \<noteq> []" and "\<forall>st. \<exists>xs. expected impl cats txs st = Completes xs"
  shows "aborted (analysis_run impl (Some cats) txs) = None"
    and "stage_log (analysis_run impl (Some cats) txs) =
      [Started Categorizer, Finished Categorizer,
       Started AnomalyDetector, Finished AnomalyDetector,
       Started RecurringChargeDetector, Finished RecurringChargeDetector,
       Started DeltaCalculator, Finished DeltaCalculator,
       Started InsightGenerator, Finished InsightGenerator]"
    and "outputs (analysis_run impl (Some cats) txs) st
      = Finalized (produced (expected impl cats txs st))"
proof -
  from assms(2) obtain c a rc d i where
    "expected impl cats txs Categorizer = Completes c"
    "expected impl cats txs AnomalyDetector = Completes a"
    "expected impl cats txs RecurringChargeDetector = Completes rc"
    "expected impl cats txs DeltaCalculator = Completes d"
    "expected impl cats txs InsightGenerator = Completes i"
    by metis
  then have impl: "impl Categorizer cats [txs] = Completes c"
    "impl AnomalyDetector cats [c] = Completes a"
    "impl RecurringChargeDetector cats [c] = Completes rc"
    "impl DeltaCalculator cats [c] = Completes d"
    "impl InsightGenerator cats [c, a, rc, d] = Completes i"
    by (simp_all add: expected_def)
  from assms(1) impl show "aborted (analysis_run impl (Some cats) txs) = None"
    by (simp add: run_simps)
  from assms(1) impl show "stage_log (analysis_run impl (Some cats) txs) =
      [Started Categorizer, Finished Categorizer,
       Started AnomalyDetector, Finished AnomalyDetector,
       Started RecurringChargeDetector, Finished RecurringChargeDetector,
       Started DeltaCalculator, Finished DeltaCalculator,
       Started InsightGenerator, Finished InsightGenerator]"
    by (simp add: run_simps)
  from assms(1) impl show "outputs (analysis_run impl (Some cats) txs) st
      = Finalized (produced (expected impl cats txs st))"
    by (cases st) (simp_all add: run_simps)
qed

lemma analysis_run_fails:
  assumes "txs \<noteq> []" and "expected impl cats txs st = Fails xs"
    and "\<forall>p\<in>set (before st). \<exists>ys. expected impl cats txs p = Completes ys"
  shows "aborted (analysis_run impl (Some cats) txs) = Some (StageFailed st)"
    and "outputs (analysis_run impl (Some cats) txs) st = Partial xs"
    and "st \<in> set (before s) \<Longrightarrow> outputs (analysis_run impl (Some cats) txs) s = NotStarted"
proof -
  have "aborted (analysis_run impl (Some cats) txs) = Some (StageFailed st)
      \<and> outputs (analysis_run impl (Some cats) txs) st = Partial xs
      \<and> (st \<in> set (before s) \<longrightarrow> outputs (analysis_run impl (Some cats) txs) s = NotStarted)"
  proof (cases st)
    case Categorizer
    with assms(1,2) show ?thesis
      by (cases s) (simp_all add: run_simps)
  next
    case AnomalyDetector
    with assms(3) obtain c where "expected impl cats txs Categorizer = Completes c"
      by auto
    with assms(1,2) AnomalyDetector show ?thesis
      by (cases s) (simp_all add: run_simps)
  next
    case RecurringChargeDetector
    with assms(3) obtain c a where "expected impl cats txs Categorizer = Completes c"
      "expected impl cats txs AnomalyDetector = Completes a"
      by auto
    with assms(1,2) RecurringChargeDetector show ?thesis
      by (cases s) (simp_all add: run_simps)
  next
    case DeltaCalculator
    with assms(3) obtain c a rc where "expected impl cats txs Categorizer = Completes c"
      "expected impl cats txs AnomalyDetector = Completes a"
      "expected impl cats txs RecurringChargeDetector = Completes rc"
      by auto
    with assms(1,2) DeltaCalculator show ?thesis
      by (cases s) (simp_all add: run_simps)
  next
    case InsightGenerator
    with assms(3) obtain c a rc d where "expected impl cats txs Categorizer = Completes c"
      "expected impl cats txs AnomalyDetector = Completes a"
      "expected impl cats txs RecurringChargeDetector = Completes rc"
      "expected impl cats txs DeltaCalculator = Completes d"
      by auto
    with assms(1,2) InsightGenerator show ?thesis
      by (cases s) (simp_all add: run_simps)
  qed
  then show "aborted (analysis_run impl (Some cats) txs) = Some (StageFailed st)"
    and "outputs (analysis_run impl (Some cats) txs) st = Partial xs"
    and "st \<in> set (before s) \<Longrightarrow> outputs (analysis_run impl (Some cats) txs) s = NotStarted"
    by blast+
qed

text \<open>Nothing is persisted of an aborted run, nor of a run in which no stage has begun.\<close>

lemma persisted_aborted: "aborted r \<noteq> None \<Longrightarrow> persisted r st = None"
  by (auto simp: persisted_def)

lemma persisted_not_started: "outputs r Categorizer = NotStarted \<Longrightarrow> persisted r st = None"
  by (simp add: persisted_def all_stages_def)

lemma persisted_all_final:
  assumes "aborted r = None" and "\<And>s. outputs r s = Finalized (f s)"
  shows "persisted r st = Some (f st)"
  using assms by (simp add: persisted_def all_stages_def)

text \<open>What holds in every state of a run.\<close>

lemma reachable_facts:
  assumes reach: "reachable impl cats txs r"
  shows "predecessor st = Some p \<Longrightarrow>
           preceded (\<lambda>e. e = Finished p) (\<lambda>e. e = Started st) (stage_log r)"
    and "outputs r st \<noteq> NotStarted \<Longrightarrow> q \<in> set (before st) \<Longrightarrow> \<exists>ys. outputs r q = Finalized ys"
    and "outputs r st = Partial xs \<Longrightarrow> outputs r s = Partial ys \<Longrightarrow> st = s"
    and "outputs r st = Partial xs \<Longrightarrow>
           \<exists>cs. cats = Some cs \<and> txs \<noteq> []
             \<and> inputs_of st r = Some (expected_inputs impl cs txs st)
             \<and> xs = take (length xs) (produced (expected impl cs txs st))"
    and "outputs r st = Finalized xs \<Longrightarrow>
           (\<exists>cs. cats = Some cs \<and> txs \<noteq> []
              \<and> inputs_of st r = Some (expected_inputs impl cs txs st)
              \<and> expected impl cs txs st = Completes xs)
           \<and> Finished st \<in> set (stage_log r)
           \<and> (\<forall>r'. rtranclp (step impl) r r' \<longrightarrow> outputs r' st = Finalized xs)"
    and "cats = None \<or> txs = [] \<Longrightarrow>
           outputs r st = NotStarted \<and> Started st \<notin> set (stage_log r) \<and> persisted r st = None"
    and "aborted r \<noteq> None \<Longrightarrow> persisted r st = None \<and> (\<forall>r'. \<not> step impl r r')"
proof -
  note ok = reachable_run_ok [OF reach]
  from reachable_given [OF reach]
  have given: "taxonomy r = cats" "transactions r = txs" by simp_all
  have begun: "\<exists>cs. cats = Some cs \<and> txs \<noteq> []
      \<and> inputs_of st r = Some (expected_inputs impl cs txs st)"
    if "outputs r st \<noteq> NotStarted" for st
  proof -
    from ok that given have "cats \<noteq> None" "txs \<noteq> []"
      unfolding run_ok_def by blast+
    then obtain cs where cs: "cats = Some cs" by auto
    with begun_inputs [OF ok _ given(2) that] given(1) \<open>txs \<noteq> []\<close> show ?thesis by simp
  qed
  show "preceded (\<lambda>e. e = Finished p) (\<lambda>e. e = Started st) (stage_log r)"
    if "predecessor st = Some p"
    using ok that by (simp add: run_ok_def)
  show "\<exists>ys. outputs r q = Finalized ys" if "outputs r st \<noteq> NotStarted" "q \<in> set (before st)"
    using run_ok_before [OF ok that] by (simp add: is_final_iff)
  show "st = s" if "outputs r st = Partial xs" "outputs r s = Partial ys"
    using ok that by (rule one_at_work)
  show "\<exists>cs. cats = Some cs \<and> txs \<noteq> []
      \<and> inputs_of st r = Some (expected_inputs impl cs txs st)
      \<and> xs = take (length xs) (produced (expected impl cs txs st))"
    if part: "outputs r st = Partial xs"
  proof -
    from part have "outputs r st \<noteq> NotStarted" by simp
    from begun [OF this] obtain cs where cs: "cats = Some cs" "txs \<noteq> []"
      "inputs_of st r = Some (expected_inputs impl cs txs st)"
      by blast
    from partial_is_expected [OF ok _ given(2) part, of cs] given(1) cs show ?thesis
      by simp
  qed
  show "(\<exists>cs. cats = Some cs \<and> txs \<noteq> []
        \<and> inputs_of st r = Some (expected_inputs impl cs txs st)
        \<and> expected impl cs txs st = Completes xs)
      \<and> Finished st \<in> set (stage_log r)
      \<and> (\<forall>r'. rtranclp (step impl) r r' \<longrightarrow> outputs r' st = Finalized xs)"
    if fin: "outputs r st = Finalized xs"
  proof (intro conjI allI impI)
    from fin have "outputs r st \<noteq> NotStarted" by simp
    from begun [OF this] obtain cs where cs: "cats = Some cs" "txs \<noteq> []"
      "inputs_of st r = Some (expected_inputs impl cs txs st)"
      by blast
    from final_is_expected [OF ok _ given(2) fin, of cs] given(1) cs
    show "\<exists>cs. cats = Some cs \<and> txs \<noteq> []
        \<and> inputs_of st r = Some (expected_inputs impl cs txs st)
        \<and> expected impl cs txs st = Completes xs"
      by simp
    from ok fin show "Finished st \<in> set (stage_log r)"
      by (simp add: run_ok_def)
    fix r' assume "rtranclp (step impl) r r'"
    then show "outputs r' st = Finalized xs"
      using fin by (rule steps_keep_final)
  qed
  show "outputs r st = NotStarted \<and> Started st \<notin> set (stage_log r) \<and> persisted r st = None"
    if "cats = None \<or> txs = []"
  proof -
    have none: "outputs r s = NotStarted" for s
      using begun [of s] that by auto
    moreover from ok none [of st] have "Started st \<notin> set (stage_log r)"
      unfolding run_ok_def by blast
    ultimately show ?thesis
      by (simp add: persisted_not_started)
  qed
  show "persisted r st = None \<and> (\<forall>r'. \<not> step impl r r')" if "aborted r \<noteq> None"
    using that step_not_aborted [of impl r] by (auto simp: persisted_aborted)
qed

text \<open>
  C8. Within one analysis run the stages execute in strict sequential order. The run is the
  one modelled from the spec, with stages that work step by step and may fail; in every
  state a run on a taxonomy and transactions can be in, after any number of steps:
  \<^item> every start of a stage comes after the finish of the stage before it;
  \<^item> when a stage has begun, the output set of every stage before it is finalized;
  \<^item> at most one stage is at work;
  \<^item> the stage at work, and every stage that has finished, has made its output from the
    complete output sets of the stages it consumes, and a finalized output set is the whole
    output of its stage and stays as it is in whatever the run does afterwards;
  \<^item> a run without a taxonomy or without transactions begins no stage and persists nothing,
    and an aborted run persists nothing and takes no further step.

  The run the server executes is such a run. It aborts with the fatal error of its input
  when the taxonomy is missing or the transaction set is empty; it ends with the log
  Categorizer, AnomalyDetector, RecurringChargeDetector, DeltaCalculator,
  InsightGenerator, each finished before the next starts, and persists the five complete
  output sets, when every stage completes; and when a stage fails, it aborts there, the
  stages after it never start, and nothing is persisted.

  In the client flows \<^verbatim>\<open>uploadAndAnalyze\<close> and \<^verbatim>\<open>loadSampleAndAnalyze\<close> of the sources, whatever
  the server answers: every request is awaited before anything else happens, the analyze
  request is sent only after the upload (or the sample load) has completed with a result,
  and the dashboard of a session is fetched only after the analyze call for that session
  has completed with a result.
\<close>

theorem stages_and_requests_in_order:
  fixes impl :: "('c, 'x) stages" and cats :: "'c list option" and txs :: "'x list"
    and fetch :: network and csv :: string and onProgress :: bool
  shows
  "(\<forall>r. reachable impl cats txs r \<longrightarrow>
       (\<forall>st p. predecessor st = Some p \<longrightarrow>
          preceded (\<lambda>e. e = Finished p) (\<lambda>e. e = Started st) (stage_log r))
     \<and> (\<forall>st. outputs r st \<noteq> NotStarted \<longrightarrow>
          (\<forall>p\<in>set (before st). \<exists>ys. outputs r p = Finalized ys))
     \<and> (\<forall>st s xs ys. outputs r st = Partial xs \<longrightarrow> outputs r s = Partial ys \<longrightarrow> st = s)
     \<and> (\<forall>st xs. outputs r st = Partial xs \<longrightarrow>
          (\<exists>cs. cats = Some cs \<and> txs \<noteq> []
             \<and> inputs_of st r = Some (expected_inputs impl cs txs st)
             \<and> xs = take (length xs) (produced (expected impl cs txs st))))
     \<and> (\<forall>st xs. outputs r st = Finalized xs \<longrightarrow>
          (\<exists>cs. cats = Some cs \<and> txs \<noteq> []
             \<and> inputs_of st r = Some (expected_inputs impl cs txs st)
             \<and> expected impl cs txs st = Completes xs)
          \<and> Finished st \<in> set (stage_log r)
          \<and> (\<forall>r'. rtranclp (step impl) r r' \<longrightarrow> outputs r' st = Finalized xs))
     \<and> (cats = None \<or> txs = [] \<longrightarrow>
          (\<forall>st. outputs r st = NotStarted \<and> Started st \<notin> set (stage_log r)
             \<and> persisted r st = None))
     \<and> (aborted r \<noteq> None \<longrightarrow>
          (\<forall>st. persisted r st = None) \<and> (\<forall>r'. \<not> step impl r r')))
   \<and> reachable impl cats txs (analysis_run impl cats txs)
   \<and> (cats = None \<longrightarrow> aborted (analysis_run impl cats txs) = Some TaxonomyMissing)
   \<and> (cats \<noteq> None \<longrightarrow> txs = [] \<longrightarrow>
        aborted (analysis_run impl cats txs) = Some EmptyTransactionSet)
   \<and> (\<forall>cs. cats = Some cs \<longrightarrow> txs \<noteq> [] \<longrightarrow>
          (\<forall>st. \<exists>xs. expected impl cs txs st = Completes xs) \<longrightarrow>
          aborted (analysis_run impl cats txs) = None
          \<and> stage_log (analysis_run impl cats txs) =
              [Started Categorizer, Finished Categorizer,
               Started AnomalyDetector, Finished AnomalyDetector,
               Started RecurringChargeDetector, Finished RecurringChargeDetector,
               Started DeltaCalculator, Finished DeltaCalculator,
               Started InsightGenerator, Finished InsightGenerator]
          \<and> (\<forall>st. persisted (analysis_run impl cats txs) st
                 = Some (produced (expected impl cs txs st))))
   \<and> (\<forall>cs st xs. cats = Some cs \<longrightarrow> txs \<noteq> [] \<longrightarrow>
          expected impl cs txs st = Fails xs \<longrightarrow>
          (\<forall>p\<in>set (before st). \<exists>ys. expected impl cs txs p = Completes ys) \<longrightarrow>
          aborted (analysis_run impl cats txs) = Some (StageFailed st)
          \<and> outputs (analysis_run impl cats txs) st = Partial xs
          \<and> (\<forall>s. st \<in> set (before s) \<longrightarrow> outputs (analysis_run impl cats txs) s = NotStarted)
          \<and> (\<forall>s. persisted (analysis_run impl cats txs) s = None))
   \<and> awaited (snd (uploadAndAnalyze fetch csv onProgress []))
   \<and> preceded (\<lambda>e. \<exists>v. e = Settled (POST_upload csv) (Inr v))
        (\<lambda>e. \<exists>sid. e = Sent (POST_analyze sid))
        (snd (uploadAndAnalyze fetch csv onProgress []))
   \<and> (\<forall>sid. preceded (\<lambda>e. \<exists>v. e = Settled (POST_analyze sid) (Inr v))
          (\<lambda>e. e = Sent (GET_dashboard sid))
          (snd (uploadAndAnalyze fetch csv onProgress [])))
   \<and> awaited (snd (loadSampleAndAnalyze fetch onProgress []))
   \<and> preceded (\<lambda>e. \<exists>v. e = Settled POST_sample (Inr v))
        (\<lambda>e. \<exists>sid. e = Sent (POST_analyze sid))
        (snd (loadSampleAndAnalyze fetch onProgress []))
   \<and> (\<forall>sid. preceded (\<lambda>e. \<exists>v. e = Settled (POST_analyze sid) (Inr v))
          (\<lambda>e. e = Sent (GET_dashboard sid))
          (snd (loadSampleAndAnalyze fetch onProgress [])))"
proof -
  let ?run = "analysis_run impl cats txs"
  have states: "(\<forall>st p. predecessor st = Some p \<longrightarrow>
          preceded (\<lambda>e. e = Finished p) (\<lambda>e. e = Started st) (stage_log r))
     \<and> (\<forall>st. outputs r st \<noteq> NotStarted \<longrightarrow>
          (\<forall>p\<in>set (before st). \<exists>ys. outputs r p = Finalized ys))
     \<and> (\<forall>st s xs ys. outputs r st = Partial xs \<longrightarrow> outputs r s = Partial ys \<longrightarrow> st = s)
     \<and> (\<forall>st xs. outputs r st = Partial xs \<longrightarrow>
          (\<exists>cs. cats = Some cs \<and> txs \<noteq> []
             \<and> inputs_of st r = Some (expected_inputs impl cs txs st)
             \<and> xs = take (length xs) (produced (expected impl cs txs st))))
     \<and> (\<forall>st xs. outputs r st = Finalized xs \<longrightarrow>
          (\<exists>cs. cats = Some cs \<and> txs \<noteq> []
             \<and> inputs_of st r = Some (expected_inputs impl cs txs st)
             \<and> expected impl cs txs st = Completes xs)
          \<and> Finished st \<in> set (stage_log r)
          \<and> (\<forall>r'. rtranclp (step impl) r r' \<longrightarrow> outputs r' st = Finalized xs))
     \<and> (cats = None \<or> txs = [] \<longrightarrow>
          (\<forall>st. outputs r st = NotStarted \<and> Started st \<notin> set (stage_log r)
             \<and> persisted r st = None))
     \<and> (aborted r \<noteq> None \<longrightarrow>
          (\<forall>st. persisted r st = None) \<and> (\<forall>r'. \<not> step impl r r'))"
    if reach: "reachable impl cats txs r" for r
  proof (intro conjI allI impI ballI)
    fix st p assume "predecessor st = Some p"
    then show "preceded (\<lambda>e. e = Finished p) (\<lambda>e. e = Started st) (stage_log r)"
      by (rule reachable_facts(1) [OF reach])
  next
    fix st p assume "outputs r st \<noteq> NotStarted" "p \<in> set (before st)"
    then show "\<exists>ys. outputs r p = Finalized ys"
      by (rule reachable_facts(2) [OF reach])
  next
    fix st s xs ys assume "outputs r st = Partial xs" "outputs r s = Partial ys"
    then show "st = s"
      by (rule reachable_facts(3) [OF reach])
  next
    fix st xs assume "outputs r st = Partial xs"
    then show "\<exists>cs. cats = Some cs \<and> txs \<noteq> []
        \<and> inputs_of st r = Some (expected_inputs impl cs txs st)
        \<and> xs = take (length xs) (produced (expected impl cs txs st))"
      by (rule reachable_facts(4) [OF reach])
  next
    fix st xs assume fin: "outputs r st = Finalized xs"
    from reachable_facts(5) [OF reach fin]
    show "\<exists>cs. cats = Some cs \<and> txs \<noteq> []
        \<and> inputs_of st r = Some (expected_inputs impl cs txs st)
        \<and> expected impl cs txs st = Completes xs"
      and "Finished st \<in> set (stage_log r)"
      by blast+
    fix r' assume "rtranclp (step impl) r r'"
    with reachable_facts(5) [OF reach fin] show "outputs r' st = Finalized xs"
      by blast
  next
    fix st assume fatal: "cats = None \<or> txs = []"
    from reachable_facts(6) [OF reach fatal, of st]
    show "outputs r st = NotStarted" and "Started st \<notin> set (stage_log r)"
      and "persisted r st = None"
      by blast+
  next
    fix st assume ab: "aborted r \<noteq> None"
    from reachable_facts(7) [OF reach ab, of st] show "persisted r st = None"
      by blast
  next
    fix r' assume ab: "aborted r \<noteq> None"
    from reachable_facts(7) [OF reach ab] show "\<not> step impl r r'"
      by blast
  qed
  have no_taxonomy: "aborted ?run = Some TaxonomyMissing" if "cats = None"
    using that by (simp add: analysis_run_def abort_def)
  have no_transactions: "aborted ?run = Some EmptyTransactionSet" if "cats \<noteq> None" "txs = []"
    using that by (simp add: analysis_run_def abort_def)
  have completes: "aborted ?run = None
      \<and> stage_log ?run =
          [Started Categorizer, Finished Categorizer,
           Started AnomalyDetector, Finished AnomalyDetector,
           Started RecurringChargeDetector, Finished RecurringChargeDetector,
           Started DeltaCalculator, Finished DeltaCalculator,
           Started InsightGenerator, Finished InsightGenerator]
      \<and> (\<forall>st. persisted ?run st = Some (produced (expected impl cs txs st)))"
    if "cats = Some cs" "txs \<noteq> []" "\<forall>st. \<exists>xs. expected impl cs txs st = Completes xs" for cs
    using analysis_run_completes [OF that(2,3)] that(1)
    by (simp add: persisted_all_final)
  have fails: "aborted ?run = Some (StageFailed st)
      \<and> outputs ?run st = Partial xs
      \<and> (\<forall>s. st \<in> set (before s) \<longrightarrow> outputs ?run s = NotStarted)
      \<and> (\<forall>s. persisted ?run s = None)"
    if "cats = Some cs" "txs \<noteq> []" "expected impl cs txs st = Fails xs"
      "\<forall>p\<in>set (before st). \<exists>ys. expected impl cs txs p = Completes ys" for cs st xs
    using analysis_run_fails [OF that(2,3,4)] that(1)
    by (simp add: persisted_aborted)
  from states analysis_run_reachable [of impl cats txs] no_taxonomy no_transactions
    completes fails
    uploadAndAnalyze_order(1,2,4) [where fetch = fetch and csv = csv and onProgress = onProgress]
    loadSampleAndAnalyze_order(1,2,4) [where fetch = fetch and onProgress = onProgress]
  show ?thesis
    by blast
qed

text \<open>
  The flow against the sample server, with a progress callback: three progress calls and
  three requests, each settled before the next step.
\<close>

lemma uploadAndAnalyze_sample:
  "uploadAndAnalyze sample_server ''transactions.csv'' True [] =
     (Inr (JObject [(''insights'', JArray [])]),
      [Progress ''Uploading file...'',
       Sent (POST_upload ''transactions.csv''),
       Settled (POST_upload ''transactions.csv'')
         (Inr (JObject [(''session_id'', JString ''abc-123'')])),
       Progress ''Analyzing transactions...'',
       Sent (POST_analyze (Some (JString ''abc-123''))),
       Settled (POST_analyze (Some (JString ''abc-123'')))
         (Inr (JObject [(''status'', JString ''ready'')])),
       Progress ''Loading dashboard...'',
       Sent (GET_dashboard (Some (JString ''abc-123''))),
       Settled (GET_dashboard (Some (JString ''abc-123'')))
         (Inr (JObject [(''insights'', JArray [])]))])"
  by (simp add: flow_defs Let_def sample_server_def upload_created_def analysis_ready_def
      dashboard_ready_def handleResponse_def response_json_def object_member_def)

text \<open>The output sets of the sample stages on three transactions, and of the stages with
  the failing AnomalyDetector.\<close>

lemma expected_sample:
  "expected sample_stages cats [10, 20, 30] Categorizer = Completes [11, 21, 31]"
  "expected sample_stages cats [10, 20, 30] AnomalyDetector = Completes [21, 31]"
  "expected sample_stages cats [10, 20, 30] RecurringChargeDetector = Completes [11, 21, 31]"
  "expected sample_stages cats [10, 20, 30] DeltaCalculator = Completes [6, 16, 26]"
  "expected sample_stages cats [10, 20, 30] InsightGenerator =
     Completes [11, 21, 31, 21, 31, 11, 21, 31, 6, 16, 26]"
  by (simp_all add: expected_def sample_stages_def)

lemma expected_sample_completes: "\<exists>xs. expected sample_stages cats [10, 20, 30] st = Completes xs"
  by (cases st) (simp_all add: expected_sample)

lemma expected_failing:
  "expected failing_stages cats [10, 20, 30] Categorizer = Completes [11, 21, 31]"
  "expected failing_stages cats [10, 20, 30] AnomalyDetector = Fails [21]"
  by (simp_all add: expected_def failing_stages_def sample_stages_def)

lemma mid_run_reachable: "reachable sample_stages (Some [''Dining'']) [10, 20, 30] mid_run"
proof -
  let ?r0 = "new_run (Some [''Dining'']) [10, 20, 30] :: (string, nat) run"
  let ?r1 = "\<lparr>taxonomy = Some [''Dining''], transactions = [10, 20, 30],
      outputs = (\<lambda>st. NotStarted)(Categorizer := Finalized [11, 21, 31]), aborted = None,
      stage_log = [Started Categorizer, Finished Categorizer]\<rparr> :: (string, nat) run"
  let ?r2 = "\<lparr>taxonomy = Some [''Dining''], transactions = [10, 20, 30],
      outputs = (\<lambda>st. NotStarted)
        (Categorizer := Finalized [11, 21, 31], AnomalyDetector := Partial []),
      aborted = None,
      stage_log = [Started Categorizer, Finished Categorizer, Started AnomalyDetector]\<rparr>
      :: (string, nat) run"
  have "run_stage sample_stages Categorizer ?r0 = ?r1"
    by (simp add: run_stage_def may_begin_def new_run_def inputs_of_def sample_stages_def)
  moreover have "rtranclp (step sample_stages) ?r0 (run_stage sample_stages Categorizer ?r0)"
    by (rule run_stage_steps) (simp add: new_run_def)
  ultimately have first: "rtranclp (step sample_stages) ?r0 ?r1"
    by simp
  have second: "step sample_stages ?r1 ?r2"
    using step.start [of ?r1 AnomalyDetector sample_stages]
    by (simp add: may_begin_def)
  have "inputs_of AnomalyDetector ?r2 = Some [[11, 21, 31]]"
    by (simp add: inputs_of_def)
  then have third: "step sample_stages ?r2 mid_run"
    using step.emit [of ?r2 AnomalyDetector "[]" "[''Dining'']" "[[11, 21, 31]]" sample_stages]
    by (simp add: sample_stages_def mid_run_def)
  from first second have "rtranclp (step sample_stages) ?r0 ?r2"
    by (rule rtranclp.rtrancl_into_rtrancl)
  from this third have "rtranclp (step sample_stages) ?r0 mid_run"
    by (rule rtranclp.rtrancl_into_rtrancl)
  then show ?thesis
    by (simp add: reachable_def)
qed

text \<open>
  Five runs: one stopped part-way, with the AnomalyDetector at work on the finalized output
  of the Categorizer; one that completes; one without transactions; one without a
  taxonomy; and one whose AnomalyDetector fails after its first anomaly, with the
  Categorizer finalized and no later stage started. And the upload flow against the
  sample server.
\<close>

theorem stages_and_requests_in_order_witness:
  "reachable sample_stages (Some [''Dining'']) [10, 20, 30] mid_run
   \<and> aborted mid_run = None
   \<and> outputs mid_run AnomalyDetector = Partial [21]
   \<and> outputs mid_run Categorizer = Finalized [11, 21, 31]
   \<and> outputs mid_run RecurringChargeDetector = NotStarted
   \<and> inputs_of AnomalyDetector mid_run = Some [[11, 21, 31]]
   \<and> preceded (\<lambda>e. e = Finished Categorizer) (\<lambda>e. e = Started AnomalyDetector)
        (stage_log mid_run)
   \<and> reachable sample_stages (Some [''Dining'']) [10, 20, 30]
     (analysis_run sample_stages (Some [''Dining'']) [10, 20, 30])
   \<and> aborted (analysis_run sample_stages (Some [''Dining'']) [10, 20, 30]) = None
   \<and> stage_log (analysis_run sample_stages (Some [''Dining'']) [10, 20, 30]) =
       [Started Categorizer, Finished Categorizer,
        Started AnomalyDetector, Finished AnomalyDetector,
        Started RecurringChargeDetector, Finished RecurringChargeDetector,
        Started DeltaCalculator, Finished DeltaCalculator,
        Started InsightGenerator, Finished InsightGenerator]
   \<and> predecessor AnomalyDetector = Some Categorizer
   \<and> preceded (\<lambda>e. e = Finished Categorizer) (\<lambda>e. e = Started AnomalyDetector)
        (stage_log (analysis_run sample_stages (Some [''Dining'']) [10, 20, 30]))
   \<and> persisted (analysis_run sample_stages (Some [''Dining'']) [10, 20, 30]) AnomalyDetector
       = Some [21, 31]
   \<and> persisted (analysis_run sample_stages (Some [''Dining'']) [10, 20, 30]) InsightGenerator
       = Some [11, 21, 31, 21, 31, 11, 21, 31, 6, 16, 26]
   \<and> aborted (analysis_run sample_stages (Some [''Dining'']) []) = Some EmptyTransactionSet
   \<and> outputs (analysis_run sample_stages (Some [''Dining'']) []) Categorizer = NotStarted
   \<and> persisted (analysis_run sample_stages (Some [''Dining'']) []) Categorizer = None
   \<and> aborted (analysis_run sample_stages None [10, 20, 30]) = Some TaxonomyMissing
   \<and> persisted (analysis_run sample_stages None [10, 20, 30]) Categorizer = None
   \<and> aborted (analysis_run failing_stages (Some [''Dining'']) [10, 20, 30])
       = Some (StageFailed AnomalyDetector)
   \<and> outputs (analysis_run failing_stages (Some [''Dining'']) [10, 20, 30]) AnomalyDetector
       = Partial [21]
   \<and> outputs (analysis_run failing_stages (Some [''Dining'']) [10, 20, 30]) Categorizer
       = Finalized [11, 21, 31]
   \<and> inputs_of AnomalyDetector (analysis_run failing_stages (Some [''Dining'']) [10, 20, 30])
       = Some [[11, 21, 31]]
   \<and> outputs (analysis_run failing_stages (Some [''Dining'']) [10, 20, 30])
        RecurringChargeDetector = NotStarted
   \<and> persisted (analysis_run failing_stages (Some [''Dining'']) [10, 20, 30]) Categorizer = None
   \<and> (\<exists>tr. snd (uploadAndAnalyze sample_server ''transactions.csv'' True []) = tr
          \<and> tr ! 4 = Sent (POST_analyze (Some (JString ''abc-123'')))
          \<and> tr ! 2 = Settled (POST_upload ''transactions.csv'')
                        (Inr (JObject [(''session_id'', JString ''abc-123'')]))
          \<and> tr ! 7 = Sent (GET_dashboard (Some (JString ''abc-123'')))
          \<and> tr ! 5 = Settled (POST_analyze (Some (JString ''abc-123'')))
                        (Inr (JObject [(''status'', JString ''ready'')]))
          \<and> awaited tr
          \<and> preceded (\<lambda>e. \<exists>v. e = Settled (POST_upload ''transactions.csv'') (Inr v))
               (\<lambda>e. \<exists>sid. e = Sent (POST_analyze sid)) tr
          \<and> preceded (\<lambda>e. \<exists>v. e = Settled (POST_analyze (Some (JString ''abc-123''))) (Inr v))
               (\<lambda>e. e = Sent (GET_dashboard (Some (JString ''abc-123'')))) tr)"
proof -
  let ?cats = "Some [''Dining'']"
  let ?good = "analysis_run sample_stages ?cats [10, 20, 30]"
  let ?empty = "analysis_run sample_stages ?cats []"
  let ?bare = "analysis_run sample_stages None [10, 20, 30]"
  let ?bad = "analysis_run failing_stages ?cats [10, 20, 30]"
  note good = stages_and_requests_in_order
    [of sample_stages ?cats "[10, 20, 30]" sample_server "''transactions.csv''" True]
  note empty = stages_and_requests_in_order
    [of sample_stages ?cats "[]" sample_server "''transactions.csv''" True]
  note bare = stages_and_requests_in_order
    [of sample_stages None "[10, 20, 30]" sample_server "''transactions.csv''" True]
  note bad = stages_and_requests_in_order
    [of failing_stages ?cats "[10, 20, 30]" sample_server "''transactions.csv''" True]
  note c2 = conjunct2
  have good_reach: "reachable sample_stages ?cats [10, 20, 30] ?good"
    by (rule good [THEN c2, THEN conjunct1])
  note good_states = good [THEN conjunct1, rule_format, OF good_reach]
  have good_order: "preceded (\<lambda>e. e = Finished Categorizer) (\<lambda>e. e = Started AnomalyDetector)
      (stage_log ?good)"
    by (rule good_states [THEN conjunct1, rule_format]) simp
  have good_end: "aborted ?good = None
      \<and> stage_log ?good =
          [Started Categorizer, Finished Categorizer,
           Started AnomalyDetector, Finished AnomalyDetector,
           Started RecurringChargeDetector, Finished RecurringChargeDetector,
           Started DeltaCalculator, Finished DeltaCalculator,
           Started InsightGenerator, Finished InsightGenerator]
      \<and> (\<forall>st. persisted ?good st
             = Some (produced (expected sample_stages [''Dining''] [10, 20, 30] st)))"
    by (rule good [THEN c2, THEN c2, THEN c2, THEN c2, THEN conjunct1, rule_format])
      (simp_all add: expected_sample_completes)
  have empty_reach: "reachable sample_stages ?cats [] ?empty"
    by (rule empty [THEN c2, THEN conjunct1])
  have empty_abort: "aborted ?empty = Some EmptyTransactionSet"
    by (rule empty [THEN c2, THEN c2, THEN c2, THEN conjunct1, rule_format]) simp_all
  note empty_states = empty [THEN conjunct1, rule_format, OF empty_reach]
  have empty_nothing: "outputs ?empty Categorizer = NotStarted
      \<and> Started Categorizer \<notin> set (stage_log ?empty) \<and> persisted ?empty Categorizer = None"
    by (rule empty_states [THEN c2, THEN c2, THEN c2, THEN c2, THEN c2, THEN conjunct1,
          rule_format]) simp
  have bare_reach: "reachable sample_stages None [10, 20, 30] ?bare"
    by (rule bare [THEN c2, THEN conjunct1])
  have bare_abort: "aborted ?bare = Some TaxonomyMissing"
    by (rule bare [THEN c2, THEN c2, THEN conjunct1, rule_format]) simp
  note bare_states = bare [THEN conjunct1, rule_format, OF bare_reach]
  have bare_nothing: "outputs ?bare Categorizer = NotStarted
      \<and> Started Categorizer \<notin> set (stage_log ?bare) \<and> persisted ?bare Categorizer = None"
    by (rule bare_states [THEN c2, THEN c2, THEN c2, THEN c2, THEN c2, THEN conjunct1,
          rule_format]) simp
  have bad_reach: "reachable failing_stages ?cats [10, 20, 30] ?bad"
    by (rule bad [THEN c2, THEN conjunct1])
  have bad_end: "aborted ?bad = Some (StageFailed AnomalyDetector)
      \<and> outputs ?bad AnomalyDetector = Partial [21]
      \<and> (\<forall>s. AnomalyDetector \<in> set (before s) \<longrightarrow> outputs ?bad s = NotStarted)
      \<and> (\<forall>s. persisted ?bad s = None)"
    by (rule bad [THEN c2, THEN c2, THEN c2, THEN c2, THEN c2, THEN conjunct1, rule_format])
      (simp_all add: expected_failing)
  then have bad_work: "outputs ?bad AnomalyDetector = Partial [21]"
    and bad_later: "outputs ?bad RecurringChargeDetector = NotStarted"
    and bad_nothing: "persisted ?bad Categorizer = None"
    by simp_all
  note bad_states = bad [THEN conjunct1, rule_format, OF bad_reach]
  have "\<exists>ys. outputs ?bad Categorizer = Finalized ys"
    by (rule bad_states [THEN c2, THEN conjunct1, rule_format, of AnomalyDetector])
      (simp_all add: bad_work)
  then obtain ys where ys: "outputs ?bad Categorizer = Finalized ys"
    by blast
  from bad_states [THEN c2, THEN c2, THEN c2, THEN c2, THEN conjunct1, rule_format, OF ys]
  have "expected failing_stages [''Dining''] [10, 20, 30] Categorizer = Completes ys"
    by simp
  with ys have bad_first: "outputs ?bad Categorizer = Finalized [11, 21, 31]"
    by (simp add: expected_failing)
  from bad_states [THEN c2, THEN c2, THEN c2, THEN conjunct1, rule_format, OF bad_work]
  have "inputs_of AnomalyDetector ?bad
      = Some (expected_inputs failing_stages [''Dining''] [10, 20, 30] AnomalyDetector)"
    by simp
  then have bad_inputs: "inputs_of AnomalyDetector ?bad = Some [[11, 21, 31]]"
    by (simp add: expected_inputs_def expected_failing)
  note mid_states = good [THEN conjunct1, rule_format, OF mid_run_reachable]
  have mid_work: "outputs mid_run AnomalyDetector = Partial [21]"
    by (simp add: mid_run_def)
  from mid_states [THEN c2, THEN c2, THEN c2, THEN conjunct1, rule_format, OF mid_work]
  have "inputs_of AnomalyDetector mid_run
      = Some (expected_inputs sample_stages [''Dining''] [10, 20, 30] AnomalyDetector)"
    by simp
  then have mid_inputs: "inputs_of AnomalyDetector mid_run = Some [[11, 21, 31]]"
    by (simp add: expected_inputs_def expected_sample)
  have mid_order: "preceded (\<lambda>e. e = Finished Categorizer) (\<lambda>e. e = Started AnomalyDetector)
      (stage_log mid_run)"
    by (rule mid_states [THEN conjunct1, rule_format]) simp
  have mid_rest: "aborted mid_run = None" "outputs mid_run Categorizer = Finalized [11, 21, 31]"
    "outputs mid_run RecurringChargeDetector = NotStarted"
    by (simp_all add: mid_run_def)
  note flow =
    good [THEN c2, THEN c2, THEN c2, THEN c2, THEN c2, THEN c2, THEN conjunct1]
    good [THEN c2, THEN c2, THEN c2, THEN c2, THEN c2, THEN c2, THEN c2, THEN conjunct1]
    good [THEN c2, THEN c2, THEN c2, THEN c2, THEN c2, THEN c2, THEN c2, THEN c2,
      THEN conjunct1, rule_format, of "Some (JString ''abc-123'')"]
  from mid_run_reachable mid_work mid_inputs mid_order mid_rest
    good_reach good_end good_order empty_abort empty_nothing bare_abort bare_nothing
    bad_end bad_first bad_inputs flow
  show ?thesis
    by (simp add: expected_sample uploadAndAnalyze_sample)
qed

end
